theory Spec2Isabelle
  imports Complex_Main "HOL-Library.Multiset"
begin

section \<open>Errors, results and Python list primitives\<close>

text \<open>
  The exceptions the module can raise are the two built-in ones of the list operations
  it uses: \<^verbatim>\<open>IndexError\<close> (an index or \<^verbatim>\<open>xs[0]\<close>, \<^verbatim>\<open>xs[-1]\<close> out of range) and
  \<^verbatim>\<open>ValueError\<close> (\<^verbatim>\<open>min\<close>/\<^verbatim>\<open>max\<close> of an empty sequence, \<^verbatim>\<open>list.index\<close> of an absent
  element). A computation that may raise returns \<open>error + 'a\<close>, with \<open>Inl\<close> the
  exception.
\<close>

datatype error = IndexError | ValueError

definition rbind :: "error + 'a \<Rightarrow> ('a \<Rightarrow> error + 'b) \<Rightarrow> error + 'b" where
  "rbind m f = (case m of Inl e \<Rightarrow> Inl e | Inr x \<Rightarrow> f x)"

text \<open>A list comprehension whose element expression may raise: left to right, first error wins.\<close>

fun rmap :: "('a \<Rightarrow> error + 'b) \<Rightarrow> 'a list \<Rightarrow> error + 'b list" where
  "rmap f [] = Inr []"
| "rmap f (x # xs) = rbind (f x) (\<lambda>y. rbind (rmap f xs) (\<lambda>ys. Inr (y # ys)))"

text \<open>A list comprehension with a condition that may raise.\<close>

fun rfilter :: "('a \<Rightarrow> error + bool) \<Rightarrow> 'a list \<Rightarrow> error + 'a list" where
  "rfilter p [] = Inr []"
| "rfilter p (x # xs) =
     rbind (p x) (\<lambda>b. rbind (rfilter p xs) (\<lambda>ys. Inr (if b then x # ys else ys)))"

text \<open>\<^verbatim>\<open>xs[i]\<close> for a non-negative index, \<^verbatim>\<open>xs[0]\<close> and \<^verbatim>\<open>xs[-1]\<close>.\<close>

definition getitem :: "'a list \<Rightarrow> nat \<Rightarrow> error + 'a" where
  "getitem xs i = (if i < length xs then Inr (xs ! i) else Inl IndexError)"

definition item_first :: "'a list \<Rightarrow> error + 'a" where
  "item_first xs = (case xs of [] \<Rightarrow> Inl IndexError | x # _ \<Rightarrow> Inr x)"

definition item_last :: "'a list \<Rightarrow> error + 'a" where
  "item_last xs = (if xs = [] then Inl IndexError else Inr (last xs))"

text \<open>\<^verbatim>\<open>min(xs)\<close> and \<^verbatim>\<open>max(xs)\<close> on a list of indices.\<close>

definition py_min :: "nat list \<Rightarrow> error + nat" where
  "py_min xs = (case xs of [] \<Rightarrow> Inl ValueError | x # ys \<Rightarrow> Inr (fold min ys x))"

definition py_max :: "nat list \<Rightarrow> error + nat" where
  "py_max xs = (case xs of [] \<Rightarrow> Inl ValueError | x # ys \<Rightarrow> Inr (fold max ys x))"

text \<open>
  \<^verbatim>\<open>min(xs, key=f)\<close>: the keys are computed for every element, the first element with
  the least key is returned, an empty \<open>xs\<close> raises \<^verbatim>\<open>ValueError\<close>.
\<close>

fun least_key :: "('a \<times> rat) \<Rightarrow> ('a \<times> rat) list \<Rightarrow> 'a" where
  "least_key (x, k) [] = x"
| "least_key (x, k) ((y, l) # rest) = (if l < k then least_key (y, l) rest else least_key (x, k) rest)"

definition py_min_key :: "('a \<Rightarrow> error + rat) \<Rightarrow> 'a list \<Rightarrow> error + 'a" where
  "py_min_key f xs =
     (case xs of [] \<Rightarrow> Inl ValueError
      | x # ys \<Rightarrow> rbind (rmap f (x # ys)) (\<lambda>ks. Inr (least_key (x, hd ks) (zip ys (tl ks)))))"

text \<open>
  \<^verbatim>\<open>sorted(xs, key=f)\<close>: keys first, in list order, then a stable sort on the keys
  (\<open>sort_key\<close> is a stable insertion sort).
\<close>

definition py_sorted :: "('a \<Rightarrow> error + int) \<Rightarrow> 'a list \<Rightarrow> error + 'a list" where
  "py_sorted f xs = rbind (rmap f xs) (\<lambda>ks. Inr (map snd (sort_key fst (zip ks xs))))"

text \<open>\<^verbatim>\<open>pairwise\<close>: \<open>s \<rightarrow> (s0,s1), (s1,s2), ...\<close>\<close>

definition pairwise :: "'a list \<Rightarrow> ('a \<times> 'a) list" where
  "pairwise xs = zip xs (tl xs)"

text \<open>\<^verbatim>\<open>xss[-1].extend(ys)\<close>: raises on an empty outer list.\<close>

definition extend_last :: "'a list list \<Rightarrow> 'a list \<Rightarrow> error + 'a list list" where
  "extend_last xss ys = (if xss = [] then Inl IndexError else Inr (butlast xss @ [last xss @ ys]))"

section \<open>Time\<close>

text \<open>
  A \<^verbatim>\<open>datetime\<close> is a count of microseconds (the resolution of Python's
  \<^verbatim>\<open>datetime\<close>), a \<^verbatim>\<open>timedelta\<close> a difference of two of them, and
  \<^verbatim>\<open>total_seconds()\<close> that difference in seconds, as an exact rational. Thresholds are
  rationals in seconds.
\<close>

definition total_seconds :: "int \<Rightarrow> rat" where
  "total_seconds td = of_int td / 1000000"

section \<open>Data model\<close>

record Vocalization =
  start :: int
  stop :: int
  name :: string

text \<open>\<^verbatim>\<open>delta_t\<close> on two vocalizations: time between end of first and beginning of second.\<close>

definition delta_t :: "Vocalization \<Rightarrow> Vocalization \<Rightarrow> rat" where
  "delta_t fst_v snd_v = total_seconds (start snd_v - stop fst_v)"

record VocGroup =
  voc_list :: "Vocalization list"
  voc_idxs :: "nat list"
  vocalizations :: "Vocalization list"

text \<open>
  The constructor \<^verbatim>\<open>VocGroup(voc_list, voc_idxs)\<close>; \<^verbatim>\<open>VocGroup(voc_list)\<close> is
  \<open>VocGroup_init voc_list []\<close>. Indices are the non-negative positions that
  \<^verbatim>\<open>enumerate\<close> hands out.
\<close>

definition VocGroup_init :: "Vocalization list \<Rightarrow> nat list \<Rightarrow> error + VocGroup" where
  "VocGroup_init vl idxs =
     rbind (rmap (getitem vl) idxs)
       (\<lambda>vs. Inr \<lparr>voc_list = vl, voc_idxs = idxs, vocalizations = vs\<rparr>)"

definition VocGroup_first :: "VocGroup \<Rightarrow> error + Vocalization" where
  "VocGroup_first g = item_first (vocalizations g)"

definition VocGroup_last :: "VocGroup \<Rightarrow> error + Vocalization" where
  "VocGroup_last g = item_last (vocalizations g)"

definition VocGroup_start :: "VocGroup \<Rightarrow> error + int" where
  "VocGroup_start g = rbind (VocGroup_first g) (\<lambda>v. Inr (start v))"

definition VocGroup_stop :: "VocGroup \<Rightarrow> error + int" where
  "VocGroup_stop g = rbind (VocGroup_last g) (\<lambda>v. Inr (stop v))"

text \<open>
  \<^verbatim>\<open>delta_t\<close> on two groups. In \<^verbatim>\<open>second.start - first.stop\<close> the left operand is
  evaluated first.
\<close>

definition delta_t_groups :: "VocGroup \<Rightarrow> VocGroup \<Rightarrow> error + rat" where
  "delta_t_groups cg ng =
     rbind (VocGroup_start ng) (\<lambda>s. rbind (VocGroup_stop cg) (\<lambda>e. Inr (total_seconds (s - e))))"

record Bout =
  b_voc_list :: "Vocalization list"
  intro_notes :: "Vocalization list"
  intro_idxs :: "nat list"
  syllables :: "Vocalization list"
  syll_idxs :: "nat list"
  motifs :: "VocGroup list option"
  intervening_idxs :: "nat list"
  intervening_vocs :: "Vocalization list"

text \<open>\<^verbatim>\<open>Bout.__init__\<close>; \<open>motifs = None\<close> is "not yet parsed".\<close>

definition Bout_init :: "Vocalization list \<Rightarrow> VocGroup \<Rightarrow> VocGroup \<Rightarrow> error + Bout" where
  "Bout_init vl intro_group syllable_group =
     (let used = voc_idxs intro_group @ voc_idxs syllable_group in
      rbind (py_min used) (\<lambda>lowest_idx.
      rbind (py_max used) (\<lambda>highest_idx.
      let iv = filter (\<lambda>i. i \<notin> set used) [lowest_idx..<highest_idx] in
      rbind (rmap (getitem vl) iv) (\<lambda>ivocs.
      Inr \<lparr>b_voc_list = vl,
           intro_notes = vocalizations intro_group,
           intro_idxs = voc_idxs intro_group,
           syllables = vocalizations syllable_group,
           syll_idxs = voc_idxs syllable_group,
           motifs = None,
           intervening_idxs = iv,
           intervening_vocs = ivocs\<rparr>))))"

definition Bout_first :: "Bout \<Rightarrow> error + Vocalization" where
  "Bout_first b = (if intro_notes b \<noteq> [] then item_first (intro_notes b)
                   else item_first (syllables b))"

text \<open>\<^verbatim>\<open>if self.motifs\<close> is true for a non-empty list only: not for \<^verbatim>\<open>None\<close>, not for \<^verbatim>\<open>[]\<close>.\<close>

definition truthy :: "'a list option \<Rightarrow> bool" where
  "truthy m = (case m of None \<Rightarrow> False | Some xs \<Rightarrow> xs \<noteq> [])"

definition Bout_last :: "Bout \<Rightarrow> error + Vocalization" where
  "Bout_last b = (if truthy (motifs b) then item_last (syllables b)
                  else item_last (intro_notes b))"

definition Bout_start :: "Bout \<Rightarrow> error + int" where
  "Bout_start b = rbind (Bout_first b) (\<lambda>v. Inr (start v))"

definition Bout_stop :: "Bout \<Rightarrow> error + int" where
  "Bout_stop b = rbind (Bout_last b) (\<lambda>v. Inr (stop v))"

text \<open>\<^verbatim>\<open>(self.stop - self.start).total_seconds()\<close>: \<open>stop\<close> is read first.\<close>

definition Bout_duration :: "Bout \<Rightarrow> error + rat" where
  "Bout_duration b =
     rbind (Bout_stop b) (\<lambda>e. rbind (Bout_start b) (\<lambda>s. Inr (total_seconds (e - s))))"

text \<open>\<^verbatim>\<open>delta_t\<close> on two bouts.\<close>

definition delta_t_bouts :: "Bout \<Rightarrow> Bout \<Rightarrow> error + rat" where
  "delta_t_bouts fb sb =
     rbind (Bout_start sb) (\<lambda>s. rbind (Bout_stop fb) (\<lambda>e. Inr (total_seconds (s - e))))"

text \<open>\<^verbatim>\<open>Bout.parse_motifs\<close> is defined after \<open>define_motifs\<close> below.\<close>

section \<open>Label aliasing\<close>

record BirdMetadata =
  bird_name :: string
  bird_syllables :: "string list"
  intro_note :: string
  intro_aliases :: "string list"
  ignore :: "string list"

text \<open>\<^verbatim>\<open>BirdMetadata.alias(voc, elide_garbled, elide_versions)\<close>\<close>

definition BirdMetadata_alias :: "BirdMetadata \<Rightarrow> bool \<Rightarrow> bool \<Rightarrow> string \<Rightarrow> string" where
  "BirdMetadata_alias bm elide_garbled elide_versions voc =
     (if voc = [] \<or> voc \<in> set (ignore bm) then voc
      else
        let v1 = (if elide_garbled \<and> last voc = CHR ''*'' then butlast voc else voc);
            v2 = (if elide_versions \<and> CHR ''_'' \<in> set v1 then
                    (let garb = (CHR ''*'' \<in> set v1);
                         v = takeWhile (\<lambda>c. c \<noteq> CHR ''_'') v1
                     in if garb \<and> \<not> elide_garbled then v @ ''*'' else v)
                  else v1)
        in if v2 \<in> set (intro_aliases bm) then intro_note bm else v2)"

section \<open>Step 1: grouping\<close>

fun group_loop ::
  "(string \<Rightarrow> string) \<Rightarrow> string list \<Rightarrow> (nat \<times> Vocalization) list \<Rightarrow> nat list list \<Rightarrow> bool
   \<Rightarrow> error + nat list list" where
  "group_loop alias_fn targets [] groups last_in_target = Inr groups"
| "group_loop alias_fn targets ((idx, voc) # rest) groups last_in_target =
     (if alias_fn (name voc) \<in> set targets then
        rbind (extend_last (if \<not> last_in_target then groups @ [[]] else groups) [idx])
          (\<lambda>groups'. group_loop alias_fn targets rest groups' True)
      else group_loop alias_fn targets rest groups False)"

definition group_elements ::
  "Vocalization list \<Rightarrow> string list \<Rightarrow> (string \<Rightarrow> string) \<Rightarrow> error + VocGroup list" where
  "group_elements vl targets alias_fn =
     rbind (group_loop alias_fn targets (enumerate 0 vl) [] False)
       (\<lambda>groups. rmap (VocGroup_init vl) groups)"

section \<open>Step 2: annealing\<close>

text \<open>
  \<^verbatim>\<open>[1 for b in breaks if b >= cg.stop and b <= ng.start]\<close>: \<open>ng.start\<close> is read only
  when the first comparison holds.
\<close>

fun song_between :: "VocGroup \<Rightarrow> VocGroup \<Rightarrow> int list \<Rightarrow> error + nat list" where
  "song_between cg ng [] = Inr []"
| "song_between cg ng (b # bs) =
     rbind (VocGroup_stop cg) (\<lambda>e.
     rbind (if b \<ge> e then rbind (VocGroup_start ng) (\<lambda>s. Inr (b \<le> s)) else Inr False) (\<lambda>hit.
     rbind (song_between cg ng bs) (\<lambda>rest. Inr (if hit then 1 # rest else rest))))"

text \<open>\<^verbatim>\<open>song_between or (delta_t(cg, ng) > anneal_threshold)\<close>: true starts a new group.\<close>

definition anneal_cut :: "rat \<Rightarrow> int list \<Rightarrow> VocGroup \<Rightarrow> VocGroup \<Rightarrow> error + bool" where
  "anneal_cut anneal_threshold breaks cg ng =
     rbind (song_between cg ng breaks) (\<lambda>sb.
       if sb \<noteq> [] then Inr True
       else rbind (delta_t_groups cg ng) (\<lambda>d. Inr (d > anneal_threshold)))"

fun anneal_loop ::
  "rat \<Rightarrow> int list \<Rightarrow> (VocGroup \<times> VocGroup) list \<Rightarrow> nat list list \<Rightarrow> error + nat list list" where
  "anneal_loop t breaks [] annealed = Inr annealed"
| "anneal_loop t breaks ((cg, ng) # rest) annealed =
     rbind (anneal_cut t breaks cg ng) (\<lambda>c.
       if c then anneal_loop t breaks rest (annealed @ [voc_idxs ng])
       else rbind (extend_last annealed (voc_idxs ng)) (\<lambda>a. anneal_loop t breaks rest a))"

definition anneal_groups :: "VocGroup list \<Rightarrow> rat \<Rightarrow> int list \<Rightarrow> error + VocGroup list" where
  "anneal_groups groups anneal_threshold breaks =
     (if groups = [] then Inr []
      else rbind (anneal_loop anneal_threshold breaks (pairwise groups) [voc_idxs (hd groups)])
             (\<lambda>annealed. rmap (VocGroup_init (voc_list (hd groups))) annealed))"

section \<open>Step 3: splitting\<close>

text \<open>
  The test of the inner loop of \<open>split_groups\<close> for the consecutive members \<open>cn\<close>, \<open>nn\<close>
  of a group: true cuts the group between them.
\<close>

definition split_cut :: "rat \<Rightarrow> VocGroup \<Rightarrow> nat \<Rightarrow> nat \<Rightarrow> error + bool" where
  "split_cut split_threshold grp cn nn =
     rbind (getitem (voc_list grp) cn) (\<lambda>cv.
     rbind (getitem (voc_list grp) nn) (\<lambda>nv. Inr (delta_t cv nv \<ge> split_threshold)))"

text \<open>The inner loop; its state is \<open>start\<close> and the list \<open>split\<close>.\<close>

fun split_inner ::
  "rat \<Rightarrow> VocGroup \<Rightarrow> (nat \<times> nat \<times> nat) list \<Rightarrow> nat \<Rightarrow> nat list list
   \<Rightarrow> error + (nat \<times> nat list list)" where
  "split_inner t grp [] st split = Inr (st, split)"
| "split_inner t grp ((idx, cn, nn) # rest) st split =
     rbind (split_cut t grp cn nn) (\<lambda>c.
       if c then
         split_inner t grp rest (idx + 1) (split @ [drop st (take (idx + 1) (voc_idxs grp))])
       else split_inner t grp rest st split)"

fun split_outer :: "rat \<Rightarrow> VocGroup list \<Rightarrow> nat list list \<Rightarrow> error + nat list list" where
  "split_outer t [] split = Inr split"
| "split_outer t (grp # rest) split =
     rbind (split_inner t grp (enumerate 0 (pairwise (voc_idxs grp))) 0 split) (\<lambda>r.
       split_outer t rest (snd r @ [drop (fst r) (voc_idxs grp)]))"

definition split_groups :: "VocGroup list \<Rightarrow> rat \<Rightarrow> error + VocGroup list" where
  "split_groups groups split_threshold =
     (if groups = [] then Inr []
      else rbind (split_outer split_threshold groups [])
             (\<lambda>split. rmap (VocGroup_init (voc_list (hd groups))) split))"

section \<open>Step 4: bouts\<close>

text \<open>\<^verbatim>\<open>[i for i,g in enumerate(sg_left) if ig.stop < g.start]\<close>\<close>

definition candidates :: "VocGroup \<Rightarrow> VocGroup list \<Rightarrow> error + nat list" where
  "candidates ig sg_left =
     rbind (rfilter (\<lambda>p. rbind (VocGroup_stop ig) (\<lambda>e. rbind (VocGroup_start (snd p)) (\<lambda>s. Inr (e < s))))
              (enumerate 0 sg_left))
       (\<lambda>ps. Inr (map fst ps))"

fun bouts_loop ::
  "rat \<Rightarrow> VocGroup list \<Rightarrow> VocGroup list \<Rightarrow> Bout list \<Rightarrow> error + (VocGroup list \<times> Bout list)" where
  "bouts_loop t [] sg_left bouts = Inr (sg_left, bouts)"
| "bouts_loop t (ig # rest) sg_left bouts =
     rbind (candidates ig sg_left) (\<lambda>cands.
     rbind (py_min_key (\<lambda>idx. rbind (getitem sg_left idx) (\<lambda>g. delta_t_groups ig g)) cands) (\<lambda>near_idx.
     rbind (getitem sg_left near_idx) (\<lambda>near_sg.
     rbind (delta_t_groups ig near_sg) (\<lambda>d.
       if d \<le> t then
         rbind (Bout_init (voc_list ig) ig near_sg) (\<lambda>b.
           bouts_loop t rest (take near_idx sg_left @ drop (Suc near_idx) sg_left) (bouts @ [b]))
       else
         rbind (VocGroup_init (voc_list ig) []) (\<lambda>eg.
         rbind (Bout_init (voc_list ig) ig eg) (\<lambda>b.
           bouts_loop t rest sg_left (bouts @ [b])))))))"

definition define_bouts :: "VocGroup list \<Rightarrow> VocGroup list \<Rightarrow> rat \<Rightarrow> error + Bout list" where
  "define_bouts intro_groups song_groups anneal_threshold =
     rbind (bouts_loop anneal_threshold intro_groups song_groups []) (\<lambda>r.
     rbind (rmap (\<lambda>g. rbind (VocGroup_init (voc_list g) []) (\<lambda>eg. Bout_init (voc_list g) eg g)) (fst r))
       (\<lambda>more. py_sorted Bout_start (snd r @ more)))"

section \<open>Step 5: motifs\<close>

text \<open>\<^verbatim>\<open>xs.index(x)\<close>: position of the first occurrence, \<^verbatim>\<open>ValueError\<close> when absent.\<close>

definition py_index :: "'a list \<Rightarrow> 'a \<Rightarrow> error + nat" where
  "py_index xs x = (if x \<in> set xs then Inr (length (takeWhile (\<lambda>y. y \<noteq> x) xs)) else Inl ValueError)"

text \<open>
  The test of the loop in \<open>define_motifs\<close> for the syllable index \<open>i\<close> after the index
  \<open>prev\<close> (which is \<^verbatim>\<open>motifs[-1][-1]\<close>): true starts a new motif.
\<close>

definition motif_cut ::
  "Vocalization list \<Rightarrow> string list \<Rightarrow> (string \<Rightarrow> string) \<Rightarrow> nat \<Rightarrow> nat \<Rightarrow> error + bool" where
  "motif_cut vl song_sequence alias_fn prev i =
     rbind (getitem vl i) (\<lambda>s.
     rbind (getitem vl prev) (\<lambda>last_v.
     rbind (py_index song_sequence (alias_fn (name s))) (\<lambda>ps.
     rbind (py_index song_sequence (alias_fn (name last_v))) (\<lambda>pl. Inr (ps < pl)))))"

fun motifs_loop ::
  "Vocalization list \<Rightarrow> string list \<Rightarrow> (string \<Rightarrow> string) \<Rightarrow> nat list \<Rightarrow> nat list list
   \<Rightarrow> error + nat list list" where
  "motifs_loop vl sq al [] mts = Inr mts"
| "motifs_loop vl sq al (i # rest) mts =
     rbind (item_last mts) (\<lambda>lm.
     rbind (item_last lm) (\<lambda>prev.
     rbind (motif_cut vl sq al prev i) (\<lambda>c.
       if c then motifs_loop vl sq al rest (mts @ [[i]])
       else rbind (extend_last mts [i]) (\<lambda>m. motifs_loop vl sq al rest m))))"

definition define_motifs ::
  "Vocalization list \<Rightarrow> nat list \<Rightarrow> string list \<Rightarrow> (string \<Rightarrow> string) \<Rightarrow> error + VocGroup list" where
  "define_motifs vl syllable_idxs song_sequence alias_fn =
     (case syllable_idxs of
        [] \<Rightarrow> Inr []
      | i0 # rest \<Rightarrow>
          rbind (motifs_loop vl song_sequence alias_fn rest [[i0]])
            (\<lambda>mts. rmap (VocGroup_init vl) mts))"

definition parse_motifs :: "Bout \<Rightarrow> string list \<Rightarrow> (string \<Rightarrow> string) \<Rightarrow> error + Bout" where
  "parse_motifs b sq alias_fn =
     rbind (define_motifs (b_voc_list b) (syll_idxs b) sq alias_fn)
       (\<lambda>ms. Inr (b\<lparr>motifs := Some ms\<rparr>))"

section \<open>Step 6: phrases\<close>

text \<open>The test of the loop in \<open>define_phrases\<close>: true starts a new phrase.\<close>

definition phrase_cut :: "rat \<Rightarrow> Bout \<Rightarrow> Bout \<Rightarrow> error + bool" where
  "phrase_cut anneal_threshold prev b =
     rbind (delta_t_bouts prev b) (\<lambda>d. Inr (\<not> d \<le> anneal_threshold))"

fun phrases_loop :: "rat \<Rightarrow> Bout list \<Rightarrow> Bout list list \<Rightarrow> error + Bout list list" where
  "phrases_loop t [] phrases = Inr phrases"
| "phrases_loop t (b # rest) phrases =
     rbind (item_last phrases) (\<lambda>lp.
     rbind (item_last lp) (\<lambda>prev.
     rbind (phrase_cut t prev b) (\<lambda>c.
       if c then phrases_loop t rest (phrases @ [[b]])
       else rbind (extend_last phrases [b]) (\<lambda>p. phrases_loop t rest p))))"

definition define_phrases :: "Bout list \<Rightarrow> rat \<Rightarrow> error + Bout list list" where
  "define_phrases bout_list anneal_threshold =
     (case bout_list of
        [] \<Rightarrow> Inr []
      | b0 # rest \<Rightarrow> phrases_loop anneal_threshold rest [[b0]])"

section \<open>The whole parse\<close>

definition full_parse ::
  "Vocalization list \<Rightarrow> BirdMetadata \<Rightarrow> rat \<Rightarrow> rat \<Rightarrow> rat \<Rightarrow> rat \<Rightarrow> rat \<Rightarrow> bool \<Rightarrow> rat
   \<Rightarrow> error + Bout list list" where
  "full_parse vl bird_meta intro_anneal song_anneal intro_split song_split bout_anneal
     do_parse_motifs phrase_anneal =
     (let al = BirdMetadata_alias bird_meta True True in
      rbind (group_elements vl [intro_note bird_meta] al) (\<lambda>in_grps.
      rbind (group_elements vl (bird_syllables bird_meta) al) (\<lambda>song_grps.
      rbind (rmap VocGroup_start song_grps) (\<lambda>song_starts.
      rbind (anneal_groups in_grps intro_anneal song_starts) (\<lambda>ann_ing.
      rbind (rmap VocGroup_start in_grps) (\<lambda>in_starts.
      rbind (anneal_groups song_grps song_anneal in_starts) (\<lambda>ann_sg.
      rbind (split_groups ann_ing intro_split) (\<lambda>split_ing.
      rbind (split_groups ann_sg song_split) (\<lambda>split_sg.
      rbind (define_bouts split_ing split_sg bout_anneal) (\<lambda>bouts.
      rbind (if do_parse_motifs
             then rmap (\<lambda>b. parse_motifs b (bird_syllables bird_meta) al) bouts
             else Inr bouts) (\<lambda>bouts'.
      rbind (define_phrases bouts' phrase_anneal) (\<lambda>phrases.
        py_sorted (\<lambda>p. rbind (item_first p) Bout_start) phrases))))))))))))"

text \<open>
  The value of the variable \<open>bouts\<close> in \<open>full_parse\<close>, before motifs are parsed: steps 1
  to 4 on the timeline.
\<close>

definition assembled_bouts ::
  "Vocalization list \<Rightarrow> BirdMetadata \<Rightarrow> rat \<Rightarrow> rat \<Rightarrow> rat \<Rightarrow> rat \<Rightarrow> rat \<Rightarrow> error + Bout list" where
  "assembled_bouts vl bird_meta intro_anneal song_anneal intro_split song_split bout_anneal =
     (let al = BirdMetadata_alias bird_meta True True in
      rbind (group_elements vl [intro_note bird_meta] al) (\<lambda>in_grps.
      rbind (group_elements vl (bird_syllables bird_meta) al) (\<lambda>song_grps.
      rbind (rmap VocGroup_start song_grps) (\<lambda>song_starts.
      rbind (anneal_groups in_grps intro_anneal song_starts) (\<lambda>ann_ing.
      rbind (rmap VocGroup_start in_grps) (\<lambda>in_starts.
      rbind (anneal_groups song_grps song_anneal in_starts) (\<lambda>ann_sg.
      rbind (split_groups ann_ing intro_split) (\<lambda>split_ing.
      rbind (split_groups ann_sg song_split) (\<lambda>split_sg.
        define_bouts split_ing split_sg bout_anneal)))))))))"

section \<open>Cutting a list into runs\<close>

text \<open>
  The loops of steps 2, 3, 5 and 6 all walk a list once and, at each adjacent pair, either
  extend the last run or start a new one. \<open>chop\<close> states that walk once, as a recursion from
  the front, for a test that may raise; each loop is shown below to compute it.
\<close>

fun chop :: "('a \<Rightarrow> 'a \<Rightarrow> error + bool) \<Rightarrow> 'a list \<Rightarrow> error + 'a list list" where
  "chop c [] = Inr []"
| "chop c [x] = Inr [[x]]"
| "chop c (x # y # zs) =
     rbind (c x y) (\<lambda>b.
     rbind (chop c (y # zs)) (\<lambda>ss. Inr (if b then [x] # ss else (x # hd ss) # tl ss)))"

text \<open>
  The fragments \<open>split_groups\<close> makes of one group: an empty group gives the one empty
  fragment, since the final slice is appended unconditionally.
\<close>

definition fragments :: "rat \<Rightarrow> VocGroup \<Rightarrow> error + nat list list" where
  "fragments t grp = (if voc_idxs grp = [] then Inr [[]] else chop (split_cut t grp) (voc_idxs grp))"

text \<open>
  The template position of the syllable at index \<open>i\<close>: the first occurrence of its aliased
  label in the song sequence.
\<close>

definition template_pos ::
  "Vocalization list \<Rightarrow> string list \<Rightarrow> (string \<Rightarrow> string) \<Rightarrow> nat \<Rightarrow> error + nat" where
  "template_pos vl song_sequence alias_fn i =
     rbind (getitem vl i) (\<lambda>v. py_index song_sequence (alias_fn (name v)))"

section \<open>Example data\<close>

text \<open>An intro-only bout with one intro note from \<open>s\<close> to \<open>e\<close>, not yet parsed.\<close>

definition intro_only_bout :: "int \<Rightarrow> int \<Rightarrow> Bout" where
  "intro_only_bout s e =
     \<lparr>b_voc_list = [], intro_notes = [\<lparr>start = s, stop = e, name = ''i''\<rparr>], intro_idxs = [0],
      syllables = [], syll_idxs = [], motifs = None, intervening_idxs = [],
      intervening_vocs = []\<rparr>"

text \<open>A one-event timeline, the empty group on it and the group of its only event.\<close>

definition one_event :: "Vocalization list" where
  "one_event = [\<lparr>start = 0, stop = 100000, name = ''a''\<rparr>]"

definition empty_group :: "Vocalization list \<Rightarrow> VocGroup" where
  "empty_group vl = \<lparr>voc_list = vl, voc_idxs = [], vocalizations = []\<rparr>"

definition one_event_group :: VocGroup where
  "one_event_group = \<lparr>voc_list = one_event, voc_idxs = [0], vocalizations = one_event\<rparr>"

text \<open>The intro-less bout that \<open>Bout_init\<close> builds from the one-event group.\<close>

definition song_only_bout :: Bout where
  "song_only_bout =
     \<lparr>b_voc_list = one_event, intro_notes = [], intro_idxs = [],
      syllables = one_event, syll_idxs = [0], motifs = None, intervening_idxs = [],
      intervening_vocs = []\<rparr>"

text \<open>A timeline with the labels a,b,c,a,b,a,c.\<close>

definition abcabac :: "Vocalization list" where
  "abcabac =
     [\<lparr>start = 0, stop = 100000, name = ''a''\<rparr>,
      \<lparr>start = 200000, stop = 300000, name = ''b''\<rparr>,
      \<lparr>start = 400000, stop = 500000, name = ''c''\<rparr>,
      \<lparr>start = 600000, stop = 700000, name = ''a''\<rparr>,
      \<lparr>start = 800000, stop = 900000, name = ''b''\<rparr>,
      \<lparr>start = 1000000, stop = 1100000, name = ''a''\<rparr>,
      \<lparr>start = 1200000, stop = 1300000, name = ''c''\<rparr>]"

text \<open>The group that the constructor builds for an index list on that timeline.\<close>

definition motif_group :: "nat list \<Rightarrow> VocGroup" where
  "motif_group idxs = \<lparr>voc_list = abcabac, voc_idxs = idxs, vocalizations = map ((!) abcabac) idxs\<rparr>"

text \<open>
  Three events with a silence of 0.5 s between the first two and of 0.8 s between the
  last two, and the groups on that timeline.
\<close>

definition gaps_timeline :: "Vocalization list" where
  "gaps_timeline =
     [\<lparr>start = 0, stop = 100000, name = ''a''\<rparr>,
      \<lparr>start = 600000, stop = 700000, name = ''a''\<rparr>,
      \<lparr>start = 1500000, stop = 1600000, name = ''a''\<rparr>]"

text \<open>The group that the constructor builds for an index list on that timeline.\<close>

definition gaps_group :: "nat list \<Rightarrow> VocGroup" where
  "gaps_group idxs =
     \<lparr>voc_list = gaps_timeline, voc_idxs = idxs, vocalizations = map ((!) gaps_timeline) idxs\<rparr>"

text \<open>A bout on the three-event timeline with no intervening events, not yet parsed.\<close>

definition gaps_bout :: "nat list \<Rightarrow> nat list \<Rightarrow> Bout" where
  "gaps_bout ii si =
     \<lparr>b_voc_list = gaps_timeline, intro_notes = map ((!) gaps_timeline) ii, intro_idxs = ii,
      syllables = map ((!) gaps_timeline) si, syll_idxs = si, motifs = None,
      intervening_idxs = [], intervening_vocs = []\<rparr>"

text \<open>A bird with the intro note i and the song a, b, c.\<close>

definition example_bird :: BirdMetadata where
  "example_bird =
     \<lparr>bird_name = ''bird'', bird_syllables = [''a'', ''b'', ''c''], intro_note = ''i'',
      intro_aliases = [], ignore = []\<rparr>"

text \<open>A syllable, then five seconds later an intro note and a syllable.\<close>

definition aia_timeline :: "Vocalization list" where
  "aia_timeline =
     [\<lparr>start = 0, stop = 100000, name = ''a''\<rparr>,
      \<lparr>start = 5000000, stop = 5100000, name = ''i''\<rparr>,
      \<lparr>start = 5200000, stop = 5300000, name = ''a''\<rparr>]"

text \<open>
  An intro note, a long syllable that ends at 2.5 s, and 0.1 s later a second intro note
  and a syllable.
\<close>

definition iaia_timeline :: "Vocalization list" where
  "iaia_timeline =
     [\<lparr>start = 0, stop = 100000, name = ''i''\<rparr>,
      \<lparr>start = 200000, stop = 2500000, name = ''a''\<rparr>,
      \<lparr>start = 2600000, stop = 2700000, name = ''i''\<rparr>,
      \<lparr>start = 2800000, stop = 2900000, name = ''a''\<rparr>]"

text \<open>The group that the constructor builds for an index list on that timeline.\<close>

definition iaia_group :: "nat list \<Rightarrow> VocGroup" where
  "iaia_group idxs =
     \<lparr>voc_list = iaia_timeline, voc_idxs = idxs, vocalizations = map ((!) iaia_timeline) idxs\<rparr>"

text \<open>A bout on that timeline with no intervening events, not yet parsed.\<close>

definition iaia_bout :: "nat list \<Rightarrow> nat list \<Rightarrow> Bout" where
  "iaia_bout ii si =
     \<lparr>b_voc_list = iaia_timeline, intro_notes = map ((!) iaia_timeline) ii, intro_idxs = ii,
      syllables = map ((!) iaia_timeline) si, syll_idxs = si, motifs = None,
      intervening_idxs = [], intervening_vocs = []\<rparr>"

section \<open>Basic facts\<close>

lemma rbind_Inr [simp]: "rbind (Inr x) f = f x"
  by (simp add: rbind_def)

lemma rbind_Inl [simp]: "rbind (Inl e) f = Inl e"
  by (simp add: rbind_def)

lemma rbind_eq_Inr: "rbind m f = Inr y \<longleftrightarrow> (\<exists>x. m = Inr x \<and> f x = Inr y)"
  by (cases m) simp_all

lemma py_min_Nil [simp]: "py_min [] = Inl ValueError"
  by (simp add: py_min_def)

lemma rbind_eq_Inl: "rbind m f = Inl e \<longleftrightarrow> (m = Inl e \<or> (\<exists>x. m = Inr x \<and> f x = Inl e))"
  by (cases m) simp_all

lemma rbind_assoc: "rbind (rbind m f) g = rbind m (\<lambda>x. rbind (f x) g)"
  by (cases m) simp_all

lemma rmap_length: "rmap f xs = Inr ys \<Longrightarrow> length ys = length xs"
  by (induction xs arbitrary: ys) (auto simp: rbind_eq_Inr)

lemma rmap_nth: "rmap f xs = Inr ys \<Longrightarrow> i < length xs \<Longrightarrow> f (xs ! i) = Inr (ys ! i)"
proof (induction xs arbitrary: ys i)
  case Nil
  then show ?case by simp
next
  case (Cons x xs)
  then show ?case by (cases i) (auto simp: rbind_eq_Inr)
qed

section \<open>Properties of the run cutter\<close>

lemma chop_hd: "chop c (x # xs) = Inr ss \<Longrightarrow> \<exists>s rest. ss = (x # s) # rest"
  by (cases xs) (auto simp: rbind_eq_Inr split: if_splits)

lemma chop_concat: "chop c xs = Inr ss \<Longrightarrow> concat ss = xs"
proof (induction c xs arbitrary: ss rule: chop.induct)
  case (3 c x y zs)
  from "3.prems" obtain b ss' where b: "c x y = Inr b" and ss': "chop c (y # zs) = Inr ss'"
    and ss: "ss = (if b then [x] # ss' else (x # hd ss') # tl ss')"
    by (auto simp: rbind_eq_Inr)
  from chop_hd[OF ss'] obtain s rest where "ss' = (y # s) # rest" by blast
  with "3.IH"[OF ss'] ss show ?case by auto
qed simp_all

lemma chop_nonempty: "chop c xs = Inr ss \<Longrightarrow> [] \<notin> set ss"
proof (induction c xs arbitrary: ss rule: chop.induct)
  case (3 c x y zs)
  from "3.prems" obtain b ss' where b: "c x y = Inr b" and ss': "chop c (y # zs) = Inr ss'"
    and ss: "ss = (if b then [x] # ss' else (x # hd ss') # tl ss')"
    by (auto simp: rbind_eq_Inr)
  from chop_hd[OF ss'] obtain s rest where "ss' = (y # s) # rest" by blast
  with "3.IH"[OF ss'] ss show ?case by auto
qed auto

lemma chop_within: "chop c xs = Inr ss \<Longrightarrow> s \<in> set ss \<Longrightarrow> successively (\<lambda>x y. c x y = Inr False) s"
proof (induction c xs arbitrary: ss s rule: chop.induct)
  case (3 c x y zs)
  from "3.prems" obtain b ss' where b: "c x y = Inr b" and ss': "chop c (y # zs) = Inr ss'"
    and ss: "ss = (if b then [x] # ss' else (x # hd ss') # tl ss')"
    by (auto simp: rbind_eq_Inr)
  from chop_hd[OF ss'] obtain s' rest where e: "ss' = (y # s') # rest" by blast
  show ?case
  proof (cases b)
    case True
    with ss "3.prems"(2) "3.IH"[OF ss'] show ?thesis by auto
  next
    case False
    with ss e have "s = x # y # s' \<or> s \<in> set ss'" using "3.prems"(2) by auto
    then show ?thesis
    proof
      assume "s = x # y # s'"
      moreover have "successively (\<lambda>x y. c x y = Inr False) (y # s')"
        using "3.IH"[OF ss', of "y # s'"] e by simp
      ultimately show ?thesis using b False by simp
    next
      assume "s \<in> set ss'"
      then show ?thesis using "3.IH"[OF ss'] by blast
    qed
  qed
qed auto

lemma chop_across: "chop c xs = Inr ss \<Longrightarrow> successively (\<lambda>p q. c (last p) (hd q) = Inr True) ss"
proof (induction c xs arbitrary: ss rule: chop.induct)
  case (3 c x y zs)
  from "3.prems" obtain b ss' where b: "c x y = Inr b" and ss': "chop c (y # zs) = Inr ss'"
    and ss: "ss = (if b then [x] # ss' else (x # hd ss') # tl ss')"
    by (auto simp: rbind_eq_Inr)
  from chop_hd[OF ss'] obtain s' rest where e: "ss' = (y # s') # rest" by blast
  show ?case
  proof (cases b)
    case True
    with ss e b "3.IH"[OF ss'] show ?thesis by (simp add: successively_Cons)
  next
    case False
    with ss e b "3.IH"[OF ss'] show ?thesis by (auto simp: successively_Cons)
  qed
qed auto

section \<open>The loops compute the run cutter\<close>

lemma item_last_snoc [simp]: "item_last (xs @ [x]) = Inr x"
  by (simp add: item_last_def)

lemma extend_last_snoc [simp]: "extend_last (xss @ [xs]) ys = Inr (xss @ [xs @ ys])"
  by (simp add: extend_last_def)

lemma pairwise_simps [simp]:
  "pairwise [] = []" "pairwise [x] = []" "pairwise (x # y # zs) = (x, y) # pairwise (y # zs)"
  by (simp_all add: pairwise_def)

lemma phrases_loop_chop:
  "phrases_loop t bs (acc @ [cur @ [p]]) =
     rbind (chop (phrase_cut t) (p # bs)) (\<lambda>ss. Inr (acc @ [cur @ hd ss] @ tl ss))"
proof (induction bs arbitrary: acc cur p)
  case Nil
  show ?case by simp
next
  case (Cons b bs)
  show ?case
  proof (cases "phrase_cut t p b")
    case (Inl e)
    then show ?thesis by simp
  next
    case (Inr c)
    show ?thesis
    proof (cases "chop (phrase_cut t) (b # bs)")
      case (Inl e)
      with Inr Cons.IH[of "acc @ [cur @ [p]]" "[]" b] Cons.IH[of acc "cur @ [p]" b]
      show ?thesis by simp
    next
      case ss: (Inr ss)
      from chop_hd[OF ss] obtain s rest where e: "ss = (b # s) # rest" by blast
      with Inr ss Cons.IH[of "acc @ [cur @ [p]]" "[]" b] Cons.IH[of acc "cur @ [p]" b]
      show ?thesis by simp
    qed
  qed
qed

lemma define_phrases_chop: "define_phrases bs t = chop (phrase_cut t) bs"
proof (cases bs)
  case Nil
  then show ?thesis by (simp add: define_phrases_def)
next
  case (Cons b rest)
  show ?thesis
  proof (cases "chop (phrase_cut t) (b # rest)")
    case (Inl e)
    with Cons phrases_loop_chop[of t rest "[]" "[]" b] show ?thesis
      by (simp add: define_phrases_def)
  next
    case (Inr ss)
    from chop_hd[OF Inr] obtain s r where "ss = (b # s) # r" by blast
    with Inr Cons phrases_loop_chop[of t rest "[]" "[]" b] show ?thesis
      by (simp add: define_phrases_def)
  qed
qed

lemma motifs_loop_chop:
  "motifs_loop vl sq al is (acc @ [cur @ [p]]) =
     rbind (chop (motif_cut vl sq al) (p # is)) (\<lambda>ss. Inr (acc @ [cur @ hd ss] @ tl ss))"
proof (induction "is" arbitrary: acc cur p)
  case Nil
  show ?case by simp
next
  case (Cons i rest)
  show ?case
  proof (cases "motif_cut vl sq al p i")
    case (Inl e)
    then show ?thesis by simp
  next
    case (Inr c)
    show ?thesis
    proof (cases "chop (motif_cut vl sq al) (i # rest)")
      case (Inl e)
      with Inr Cons.IH[of "acc @ [cur @ [p]]" "[]" i] Cons.IH[of acc "cur @ [p]" i]
      show ?thesis by simp
    next
      case ss: (Inr ss)
      from chop_hd[OF ss] obtain s r where e: "ss = (i # s) # r" by blast
      with Inr ss Cons.IH[of "acc @ [cur @ [p]]" "[]" i] Cons.IH[of acc "cur @ [p]" i]
      show ?thesis by simp
    qed
  qed
qed

lemma motifs_loop_start: "motifs_loop vl sq al rest [[i0]] = chop (motif_cut vl sq al) (i0 # rest)"
proof (cases "chop (motif_cut vl sq al) (i0 # rest)")
  case (Inl e)
  with motifs_loop_chop[of vl sq al rest "[]" "[]" i0] show ?thesis by simp
next
  case (Inr ss)
  from chop_hd[OF Inr] obtain s r where "ss = (i0 # s) # r" by blast
  with Inr motifs_loop_chop[of vl sq al rest "[]" "[]" i0] show ?thesis by simp
qed

lemma anneal_loop_chop:
  "anneal_loop t br (pairwise (g # gs)) (acc @ [cur]) =
     rbind (chop (anneal_cut t br) (g # gs))
       (\<lambda>ss. Inr (acc @ [cur @ concat (map voc_idxs (tl (hd ss)))]
                     @ map (\<lambda>r. concat (map voc_idxs r)) (tl ss)))"
proof (induction gs arbitrary: acc cur g)
  case Nil
  show ?case by simp
next
  case (Cons g' gs)
  show ?case
  proof (cases "anneal_cut t br g g'")
    case (Inl e)
    then show ?thesis by simp
  next
    case (Inr c)
    show ?thesis
    proof (cases "chop (anneal_cut t br) (g' # gs)")
      case (Inl e)
      with Inr Cons.IH[where acc="acc @ [cur]" and cur="voc_idxs g'" and g=g']
        Cons.IH[where acc=acc and cur="cur @ voc_idxs g'" and g=g']
      show ?thesis by simp
    next
      case ss: (Inr ss)
      from chop_hd[OF ss] obtain s r where e: "ss = (g' # s) # r" by blast
      with Inr ss Cons.IH[where acc="acc @ [cur]" and cur="voc_idxs g'" and g=g']
        Cons.IH[where acc=acc and cur="cur @ voc_idxs g'" and g=g']
      show ?thesis by simp
    qed
  qed
qed

section \<open>Group construction and the splitter loops\<close>

lemma rmap_getitem_Inr:
  "rmap (getitem vl) idxs = Inr vs \<longleftrightarrow> (\<forall>i\<in>set idxs. i < length vl) \<and> vs = map ((!) vl) idxs"
  by (induction idxs arbitrary: vs) (auto simp: rbind_eq_Inr getitem_def)

lemma VocGroup_init_Inr:
  "VocGroup_init vl idxs = Inr g \<longleftrightarrow>
     (\<forall>i\<in>set idxs. i < length vl) \<and>
     g = \<lparr>voc_list = vl, voc_idxs = idxs, vocalizations = map ((!) vl) idxs\<rparr>"
  by (auto simp: VocGroup_init_def rbind_eq_Inr rmap_getitem_Inr)

lemma rmap_VocGroup_init_idxs:
  "rmap (VocGroup_init vl) idxss = Inr out \<Longrightarrow> map voc_idxs out = idxss"
  by (induction idxss arbitrary: out) (auto simp: rbind_eq_Inr VocGroup_init_Inr)

lemma split_inner_chop:
  assumes "k < length (voc_idxs grp)" "st \<le> k"
  shows "rbind (split_inner t grp (enumerate k (pairwise (drop k (voc_idxs grp)))) st split)
           (\<lambda>r. Inr (snd r @ [drop (fst r) (voc_idxs grp)])) =
         rbind (chop (split_cut t grp) (drop k (voc_idxs grp)))
           (\<lambda>ss. Inr (split @ [drop st (take k (voc_idxs grp)) @ hd ss] @ tl ss))"
  using assms
proof (induction "length (voc_idxs grp) - k" arbitrary: k st split)
  case 0
  then show ?case by simp
next
  case (Suc n)
  let ?xs = "voc_idxs grp"
  have dk: "drop k ?xs = ?xs ! k # drop (Suc k) ?xs"
    using Suc.prems(1) by (simp add: Cons_nth_drop_Suc)
  have tk: "take (Suc k) ?xs = take k ?xs @ [?xs ! k]"
    using Suc.prems(1) by (simp add: take_Suc_conv_app_nth)
  show ?case
  proof (cases "Suc k < length ?xs")
    case False
    with Suc.prems have len: "Suc k = length ?xs" by simp
    then have "drop (Suc k) ?xs = []" by simp
    moreover have "drop st ?xs = drop st (take k ?xs) @ [?xs ! k]"
    proof -
      have "?xs = take k ?xs @ [?xs ! k]" using tk len by simp
      then have "drop st ?xs = drop st (take k ?xs @ [?xs ! k])" by simp
      also have "\<dots> = drop st (take k ?xs) @ [?xs ! k]"
        using Suc.prems by simp
      finally show ?thesis .
    qed
    ultimately show ?thesis using dk by simp
  next
    case True
    then have dk1: "drop (Suc k) ?xs = ?xs ! Suc k # drop (Suc (Suc k)) ?xs"
      by (simp add: Cons_nth_drop_Suc)
    have pw: "pairwise (drop k ?xs) = (?xs ! k, ?xs ! Suc k) # pairwise (drop (Suc k) ?xs)"
      using dk dk1 by simp
    have n: "n = length ?xs - Suc k" using Suc.hyps(2) by simp
    note IH1 = Suc.hyps(1)[OF n True, of "Suc k" "split @ [drop st (take (Suc k) ?xs)]"]
    note IH2 = Suc.hyps(1)[OF n True, of st split]
    have st: "st \<le> Suc k" using Suc.prems by simp
    show ?thesis
    proof (cases "split_cut t grp (?xs ! k) (?xs ! Suc k)")
      case (Inl e)
      then show ?thesis using pw dk dk1 by simp
    next
      case (Inr c)
      show ?thesis
      proof (cases "chop (split_cut t grp) (drop (Suc k) ?xs)")
        case (Inl e)
        with Inr IH1 IH2[OF st] pw dk dk1 show ?thesis by simp
      next
        case ss: (Inr ss)
        from chop_hd[of "split_cut t grp" "?xs ! Suc k" "drop (Suc (Suc k)) ?xs" ss] ss dk1
        obtain s r where e: "ss = (?xs ! Suc k # s) # r" by auto
        show ?thesis
        proof (cases c)
          case True
          with Inr ss e IH1 pw dk dk1 tk Suc.prems show ?thesis by simp
        next
          case False
          with Inr ss e IH2[OF st] pw dk dk1 tk Suc.prems show ?thesis by simp
        qed
      qed
    qed
  qed
qed

lemma split_outer_step:
  "split_outer t (grp # rest) split = rbind (fragments t grp) (\<lambda>fr. split_outer t rest (split @ fr))"
proof (cases "voc_idxs grp = []")
  case True
  then show ?thesis by (simp add: fragments_def)
next
  case False
  then have k: "0 < length (voc_idxs grp)" by simp
  have "split_outer t (grp # rest) split =
        rbind (rbind (split_inner t grp (enumerate 0 (pairwise (voc_idxs grp))) 0 split)
                 (\<lambda>r. Inr (snd r @ [drop (fst r) (voc_idxs grp)])))
          (split_outer t rest)"
    by (simp add: rbind_assoc)
  also have "\<dots> = rbind (rbind (chop (split_cut t grp) (voc_idxs grp))
                     (\<lambda>ss. Inr (split @ [hd ss] @ tl ss))) (split_outer t rest)"
    using split_inner_chop[OF k, of 0 t split] by simp
  also have "\<dots> = rbind (fragments t grp) (\<lambda>fr. split_outer t rest (split @ fr))"
  proof (cases "chop (split_cut t grp) (voc_idxs grp)")
    case (Inl e)
    then show ?thesis using False by (simp add: fragments_def)
  next
    case (Inr ss)
    obtain x xs where "voc_idxs grp = x # xs" using False by (cases "voc_idxs grp") auto
    with chop_hd[of "split_cut t grp" x xs ss] Inr obtain s r where "ss = (x # s) # r" by auto
    with Inr False show ?thesis by (simp add: fragments_def)
  qed
  finally show ?thesis .
qed

lemma split_outer_fragments:
  "split_outer t gs split = rbind (rmap (fragments t) gs) (\<lambda>fss. Inr (split @ concat fss))"
proof (induction gs arbitrary: split)
  case Nil
  show ?case by simp
next
  case (Cons g gs)
  show ?case
    unfolding split_outer_step
    by (cases "fragments t g"; cases "rmap (fragments t) gs") (simp_all add: Cons.IH)
qed

section \<open>Bout construction\<close>

text \<open>
  C10. Constructing a Bout from an empty intro group and an empty syllable group raises
  (the minimum is taken over the empty combined index list), and therefore every Bout
  that was constructed holds at least one index in its intro or its syllable sub-group.
\<close>

theorem Bout_init_nonempty:
  "(voc_idxs ig = [] \<and> voc_idxs sg = [] \<longrightarrow> Bout_init vl ig sg = Inl ValueError) \<and>
   (Bout_init vl ig sg = Inr b \<longrightarrow> intro_idxs b @ syll_idxs b \<noteq> [])"
proof
  show "voc_idxs ig = [] \<and> voc_idxs sg = [] \<longrightarrow> Bout_init vl ig sg = Inl ValueError"
    by (simp add: Bout_init_def)
next
  show "Bout_init vl ig sg = Inr b \<longrightarrow> intro_idxs b @ syll_idxs b \<noteq> []"
  proof
    assume ok: "Bout_init vl ig sg = Inr b"
    have ne: "voc_idxs ig @ voc_idxs sg \<noteq> []"
    proof
      assume "voc_idxs ig @ voc_idxs sg = []"
      then have "Bout_init vl ig sg = Inl ValueError"
        by (simp add: Bout_init_def)
      with ok show False by simp
    qed
    from ok have "intro_idxs b = voc_idxs ig \<and> syll_idxs b = voc_idxs sg"
      by (auto simp: Bout_init_def Let_def rbind_eq_Inr)
    with ne show "intro_idxs b @ syll_idxs b \<noteq> []" by simp
  qed
qed

theorem Bout_init_nonempty_witness:
  "Bout_init one_event (empty_group one_event) (empty_group one_event) = Inl ValueError \<and>
   Bout_init one_event (empty_group one_event) one_event_group = Inr song_only_bout \<and>
   intro_idxs song_only_bout @ syll_idxs song_only_bout \<noteq> []"
proof -
  have e: "voc_idxs (empty_group one_event) = [] \<and> voc_idxs (empty_group one_event) = []"
    by (simp add: empty_group_def)
  have h: "Bout_init one_event (empty_group one_event) one_event_group = Inr song_only_bout"
    by (simp add: Bout_init_def py_min_def py_max_def empty_group_def one_event_group_def
          song_only_bout_def)
  from Bout_init_nonempty[of "empty_group one_event" "empty_group one_event" one_event] e
  have "Bout_init one_event (empty_group one_event) (empty_group one_event) = Inl ValueError"
    by blast
  moreover from Bout_init_nonempty[of "empty_group one_event" one_event_group one_event song_only_bout] h
  have "intro_idxs song_only_bout @ syll_idxs song_only_bout \<noteq> []"
    by blast
  ultimately show ?thesis using h by blast
qed

section \<open>Phrases\<close>

lemma phrase_cut_Inr:
  "phrase_cut t p q = Inr c \<longleftrightarrow> (\<exists>d. delta_t_bouts p q = Inr d \<and> c = (\<not> d \<le> t))"
  by (auto simp: phrase_cut_def rbind_eq_Inr)

text \<open>
  What the loop of \<open>define_phrases\<close> computes, in terms of \<open>delta_t\<close> on the bouts' own
  \<open>start\<close> and \<open>stop\<close> properties: the phrases are a cut of the bout list into non-empty
  runs, with a computed \<open>delta_t\<close> of at most the threshold inside a phrase and greater
  than the threshold between phrases.
\<close>

lemma define_phrases_computed_gaps:
  assumes "define_phrases bouts t = Inr phrases"
  shows "concat phrases = bouts \<and> [] \<notin> set phrases \<and>
    (\<forall>p \<in> set phrases. \<forall>j. Suc j < length p \<longrightarrow>
        (\<exists>d. delta_t_bouts (p ! j) (p ! Suc j) = Inr d \<and> d \<le> t)) \<and>
    (\<forall>i. Suc i < length phrases \<longrightarrow>
        (\<exists>d. delta_t_bouts (last (phrases ! i)) (hd (phrases ! Suc i)) = Inr d \<and> d > t))"
proof -
  from assms have ch: "chop (phrase_cut t) bouts = Inr phrases"
    by (simp add: define_phrases_chop)
  have within: "\<exists>d. delta_t_bouts (p ! j) (p ! Suc j) = Inr d \<and> d \<le> t"
    if "p \<in> set phrases" "Suc j < length p" for p j
  proof -
    from chop_within[OF ch that(1)] that(2)
    have "phrase_cut t (p ! j) (p ! Suc j) = Inr False"
      by (simp add: successively_conv_nth)
    then show ?thesis by (auto simp: phrase_cut_Inr)
  qed
  have across: "\<exists>d. delta_t_bouts (last (phrases ! i)) (hd (phrases ! Suc i)) = Inr d \<and> d > t"
    if "Suc i < length phrases" for i
  proof -
    from chop_across[OF ch] that
    have "phrase_cut t (last (phrases ! i)) (hd (phrases ! Suc i)) = Inr True"
      by (simp add: successively_conv_nth)
    then show ?thesis by (auto simp: phrase_cut_Inr)
  qed
  from chop_concat[OF ch] chop_nonempty[OF ch] within across show ?thesis by blast
qed

section \<open>Motifs and annealed runs\<close>

lemma motif_cut_Inr:
  "motif_cut vl sq al prev i = Inr c \<longleftrightarrow>
     (\<exists>ps pl. template_pos vl sq al i = Inr ps \<and> template_pos vl sq al prev = Inr pl \<and>
              c = (ps < pl))"
  by (auto simp: motif_cut_def template_pos_def rbind_eq_Inr)

lemma define_motifs_chop:
  "define_motifs vl idxs sq al =
     rbind (chop (motif_cut vl sq al) idxs) (\<lambda>mts. rmap (VocGroup_init vl) mts)"
  by (cases idxs) (simp_all add: define_motifs_def motifs_loop_start)

text \<open>
  C7. When \<open>define_motifs\<close> returns, the motifs are a cut of the syllable index list into
  non-empty runs; inside a motif no syllable has a template position strictly earlier than
  its predecessor's, and the first syllable of every motif but the first has a template
  position strictly earlier than the last syllable of the motif before. On the labels
  a,b,c,a,b,a,c with the sequence [a,b,c] the motifs are [a,b,c], [a,b], [a,c], and no
  syllable indices give no motifs.
\<close>

theorem define_motifs_boundaries:
  "(define_motifs vl idxs sq al = Inr ms \<longrightarrow>
      concat (map voc_idxs ms) = idxs \<and> (\<forall>m \<in> set ms. voc_idxs m \<noteq> []) \<and>
      (\<forall>m \<in> set ms. \<forall>j. Suc j < length (voc_idxs m) \<longrightarrow>
         (\<exists>ps pl. template_pos vl sq al (voc_idxs m ! Suc j) = Inr ps \<and>
                  template_pos vl sq al (voc_idxs m ! j) = Inr pl \<and> \<not> ps < pl)) \<and>
      (\<forall>k. Suc k < length ms \<longrightarrow>
         (\<exists>ps pl. template_pos vl sq al (hd (voc_idxs (ms ! Suc k))) = Inr ps \<and>
                  template_pos vl sq al (last (voc_idxs (ms ! k))) = Inr pl \<and> ps < pl))) \<and>
   map_sum id (map (map name \<circ> vocalizations))
        (define_motifs abcabac [0, 1, 2, 3, 4, 5, 6] [''a'', ''b'', ''c''] id) =
      Inr [[''a'', ''b'', ''c''], [''a'', ''b''], [''a'', ''c'']] \<and>
   define_motifs vl [] sq al = Inr []"
proof (intro conjI impI)
  assume ok: "define_motifs vl idxs sq al = Inr ms"
  then obtain mts where ch: "chop (motif_cut vl sq al) idxs = Inr mts"
    and rm: "rmap (VocGroup_init vl) mts = Inr ms"
    by (auto simp: define_motifs_chop rbind_eq_Inr)
  from rmap_VocGroup_init_idxs[OF rm] have idx: "map voc_idxs ms = mts" .
  from chop_concat[OF ch] idx show "concat (map voc_idxs ms) = idxs" by simp
  from chop_nonempty[OF ch] idx show "\<forall>m \<in> set ms. voc_idxs m \<noteq> []" by force
  show "\<forall>m \<in> set ms. \<forall>j. Suc j < length (voc_idxs m) \<longrightarrow>
         (\<exists>ps pl. template_pos vl sq al (voc_idxs m ! Suc j) = Inr ps \<and>
                  template_pos vl sq al (voc_idxs m ! j) = Inr pl \<and> \<not> ps < pl)"
  proof (intro ballI allI impI)
    fix m j assume m: "m \<in> set ms" and j: "Suc j < length (voc_idxs m)"
    from m idx have "voc_idxs m \<in> set mts" by force
    from chop_within[OF ch this] j
    have "motif_cut vl sq al (voc_idxs m ! j) (voc_idxs m ! Suc j) = Inr False"
      by (simp add: successively_conv_nth)
    then show "\<exists>ps pl. template_pos vl sq al (voc_idxs m ! Suc j) = Inr ps \<and>
                  template_pos vl sq al (voc_idxs m ! j) = Inr pl \<and> \<not> ps < pl"
      by (auto simp: motif_cut_Inr)
  qed
  show "\<forall>k. Suc k < length ms \<longrightarrow>
         (\<exists>ps pl. template_pos vl sq al (hd (voc_idxs (ms ! Suc k))) = Inr ps \<and>
                  template_pos vl sq al (last (voc_idxs (ms ! k))) = Inr pl \<and> ps < pl)"
  proof (intro allI impI)
    fix k assume k: "Suc k < length ms"
    with idx have l: "Suc k < length mts" by auto
    from k idx have e: "mts ! k = voc_idxs (ms ! k)" "mts ! Suc k = voc_idxs (ms ! Suc k)"
      by auto
    from chop_across[OF ch] l
    have "motif_cut vl sq al (last (mts ! k)) (hd (mts ! Suc k)) = Inr True"
      by (simp add: successively_conv_nth)
    with e show "\<exists>ps pl. template_pos vl sq al (hd (voc_idxs (ms ! Suc k))) = Inr ps \<and>
                  template_pos vl sq al (last (voc_idxs (ms ! k))) = Inr pl \<and> ps < pl"
      by (auto simp: motif_cut_Inr)
  qed
next
  show "map_sum id (map (map name \<circ> vocalizations))
        (define_motifs abcabac [0, 1, 2, 3, 4, 5, 6] [''a'', ''b'', ''c''] id) =
      Inr [[''a'', ''b'', ''c''], [''a'', ''b''], [''a'', ''c'']]"
    by code_simp
next
  show "define_motifs vl [] sq al = Inr []"
    by (simp add: define_motifs_def)
qed

theorem define_motifs_boundaries_witness:
  "define_motifs abcabac [0, 1, 2, 3] [''a'', ''b'', ''c''] id =
     Inr [motif_group [0, 1, 2], motif_group [3]] \<and>
   concat (map voc_idxs [motif_group [0, 1, 2], motif_group [3]]) = [0, 1, 2, 3] \<and>
   (\<exists>ps pl. template_pos abcabac [''a'', ''b'', ''c''] id 1 = Inr ps \<and>
            template_pos abcabac [''a'', ''b'', ''c''] id 0 = Inr pl \<and> \<not> ps < pl) \<and>
   (\<exists>ps pl. template_pos abcabac [''a'', ''b'', ''c''] id 3 = Inr ps \<and>
            template_pos abcabac [''a'', ''b'', ''c''] id 2 = Inr pl \<and> ps < pl)"
proof -
  let ?ms = "[motif_group [0, 1, 2], motif_group [3]]"
  let ?sq = "[''a'', ''b'', ''c'']"
  have h: "define_motifs abcabac [0, 1, 2, 3] ?sq id = Inr ?ms"
    by (simp add: define_motifs_def motif_cut_def py_index_def getitem_def abcabac_def
       item_last_def extend_last_def VocGroup_init_def motif_group_def)
  from define_motifs_boundaries[of abcabac "[0, 1, 2, 3]" ?sq id ?ms] h
  have c: "concat (map voc_idxs ?ms) = [0, 1, 2, 3]"
    and w: "\<forall>m \<in> set ?ms. \<forall>j. Suc j < length (voc_idxs m) \<longrightarrow>
         (\<exists>ps pl. template_pos abcabac ?sq id (voc_idxs m ! Suc j) = Inr ps \<and>
                  template_pos abcabac ?sq id (voc_idxs m ! j) = Inr pl \<and> \<not> ps < pl)"
    and a: "\<forall>k. Suc k < length ?ms \<longrightarrow>
         (\<exists>ps pl. template_pos abcabac ?sq id (hd (voc_idxs (?ms ! Suc k))) = Inr ps \<and>
                  template_pos abcabac ?sq id (last (voc_idxs (?ms ! k))) = Inr pl \<and> ps < pl)"
    by blast+
  from w have "Suc 0 < length (voc_idxs (motif_group [0, 1, 2])) \<longrightarrow>
         (\<exists>ps pl. template_pos abcabac ?sq id (voc_idxs (motif_group [0, 1, 2]) ! Suc 0) = Inr ps \<and>
                  template_pos abcabac ?sq id (voc_idxs (motif_group [0, 1, 2]) ! 0) = Inr pl \<and> \<not> ps < pl)"
    by simp
  then have w1: "\<exists>ps pl. template_pos abcabac ?sq id 1 = Inr ps \<and>
            template_pos abcabac ?sq id 0 = Inr pl \<and> \<not> ps < pl"
    by (simp add: motif_group_def)
  from a have "Suc 0 < length ?ms \<longrightarrow>
         (\<exists>ps pl. template_pos abcabac ?sq id (hd (voc_idxs (?ms ! Suc 0))) = Inr ps \<and>
                  template_pos abcabac ?sq id (last (voc_idxs (?ms ! 0))) = Inr pl \<and> ps < pl)"
    by blast
  then have a1: "\<exists>ps pl. template_pos abcabac ?sq id 3 = Inr ps \<and>
            template_pos abcabac ?sq id 2 = Inr pl \<and> ps < pl"
    by (simp add: motif_group_def)
  from h c w1 a1 show ?thesis by blast
qed

lemma delta_t_groups_Inr:
  "delta_t_groups cg ng = Inr d \<longleftrightarrow>
     (\<exists>e s. VocGroup_stop cg = Inr e \<and> VocGroup_start ng = Inr s \<and> d = total_seconds (s - e))"
  by (auto simp: delta_t_groups_def rbind_eq_Inr)

lemma song_between_ok:
  "VocGroup_stop cg = Inr e \<Longrightarrow> VocGroup_start ng = Inr s \<Longrightarrow>
   song_between cg ng br = Inr (map (\<lambda>_. 1) (filter (\<lambda>b. e \<le> b \<and> b \<le> s) br))"
  by (induction br) auto

lemma song_between_hit:
  "song_between cg ng br = Inr sb \<Longrightarrow> sb \<noteq> [] \<Longrightarrow>
   \<exists>e s. VocGroup_stop cg = Inr e \<and> VocGroup_start ng = Inr s"
proof (induction br arbitrary: sb)
  case Nil
  then show ?case by simp
next
  case (Cons b br)
  from Cons.prems(1) obtain e hit rest where e: "VocGroup_stop cg = Inr e"
    and hit: "(if b \<ge> e then rbind (VocGroup_start ng) (\<lambda>s. Inr (b \<le> s)) else Inr False) = Inr hit"
    and rest: "song_between cg ng br = Inr rest" and sb: "sb = (if hit then 1 # rest else rest)"
    by (auto simp: rbind_eq_Inr)
  show ?case
  proof (cases hit)
    case True
    with hit e show ?thesis by (auto simp: rbind_eq_Inr split: if_splits)
  next
    case False
    with sb Cons.prems(2) have "rest \<noteq> []" by simp
    from Cons.IH[OF rest this] show ?thesis .
  qed
qed

lemma anneal_cut_Inr:
  assumes "anneal_cut t br cg ng = Inr c"
  shows "\<exists>e s. VocGroup_stop cg = Inr e \<and> VocGroup_start ng = Inr s \<and>
           c = ((\<exists>b \<in> set br. e \<le> b \<and> b \<le> s) \<or> total_seconds (s - e) > t)"
proof -
  from assms obtain sb where sb: "song_between cg ng br = Inr sb"
    and c: "(if sb \<noteq> [] then Inr True
             else rbind (delta_t_groups cg ng) (\<lambda>d. Inr (d > t))) = Inr c"
    by (auto simp: anneal_cut_def rbind_eq_Inr)
  have "\<exists>e s. VocGroup_stop cg = Inr e \<and> VocGroup_start ng = Inr s"
  proof (cases "sb = []")
    case True
    with c show ?thesis by (auto simp: rbind_eq_Inr delta_t_groups_Inr)
  next
    case False
    from song_between_hit[OF sb this] show ?thesis .
  qed
  then obtain e s where e: "VocGroup_stop cg = Inr e" and s: "VocGroup_start ng = Inr s"
    by blast
  from song_between_ok[OF e s, of br] sb
  have sbe: "sb = map (\<lambda>_. 1) (filter (\<lambda>b. e \<le> b \<and> b \<le> s) br)" by simp
  have "c = ((\<exists>b \<in> set br. e \<le> b \<and> b \<le> s) \<or> total_seconds (s - e) > t)"
  proof (cases "sb = []")
    case True
    with sbe have "\<not> (\<exists>b \<in> set br. e \<le> b \<and> b \<le> s)" by (auto simp: filter_empty_conv)
    moreover from True c e s have "c = (total_seconds (s - e) > t)"
      by (auto simp: delta_t_groups_def)
    ultimately show ?thesis by blast
  next
    case False
    with sbe have "\<exists>b \<in> set br. e \<le> b \<and> b \<le> s" by (auto simp: filter_empty_conv)
    moreover from False c have c by simp
    ultimately show ?thesis by simp
  qed
  with e s show ?thesis by blast
qed

lemma anneal_groups_runs:
  assumes "anneal_groups gs t br = Inr out"
  shows "\<exists>runs. chop (anneal_cut t br) gs = Inr runs \<and>
           map voc_idxs out = map (\<lambda>r. concat (map voc_idxs r)) runs"
proof (cases gs)
  case Nil
  with assms show ?thesis by (simp add: anneal_groups_def)
next
  case (Cons g rest)
  with assms obtain annealed where
    l: "anneal_loop t br (pairwise (g # rest)) ([] @ [voc_idxs g]) = Inr annealed"
    and r: "rmap (VocGroup_init (voc_list g)) annealed = Inr out"
    by (auto simp: anneal_groups_def rbind_eq_Inr)
  from l obtain runs where ch: "chop (anneal_cut t br) (g # rest) = Inr runs"
    and a: "annealed = [] @ [voc_idxs g @ concat (map voc_idxs (tl (hd runs)))]
                    @ map (\<lambda>r. concat (map voc_idxs r)) (tl runs)"
    unfolding anneal_loop_chop by (auto simp: rbind_eq_Inr)
  from chop_hd[OF ch] obtain s rs where "runs = (g # s) # rs" by blast
  with a have "annealed = map (\<lambda>r. concat (map voc_idxs r)) runs" by simp
  with rmap_VocGroup_init_idxs[OF r] ch Cons show ?thesis by simp
qed

section \<open>Threshold boundaries and barriers\<close>

lemma split_cut_Inr:
  "split_cut t g cn nn = Inr c \<longleftrightarrow>
     cn < length (voc_list g) \<and> nn < length (voc_list g) \<and>
     c = (delta_t (voc_list g ! cn) (voc_list g ! nn) \<ge> t)"
  by (auto simp: split_cut_def getitem_def rbind_eq_Inr)

lemma split_groups_fragments:
  assumes "split_groups gs t = Inr out"
  shows "\<exists>fss. rmap (fragments t) gs = Inr fss \<and> map voc_idxs out = concat fss"
proof (cases gs)
  case Nil
  with assms show ?thesis by (simp add: split_groups_def)
next
  case (Cons g rest)
  with assms obtain split where so: "split_outer t gs [] = Inr split"
    and r: "rmap (VocGroup_init (voc_list (hd gs))) split = Inr out"
    by (auto simp: split_groups_def rbind_eq_Inr)
  from so obtain fss where "rmap (fragments t) gs = Inr fss" "split = concat fss"
    unfolding split_outer_fragments by (auto simp: rbind_eq_Inr)
  with rmap_VocGroup_init_idxs[OF r] show ?thesis by simp
qed

lemma fragments_props:
  assumes "fragments t g = Inr fs"
  shows "concat fs = voc_idxs g" "fs \<noteq> []" "voc_idxs g \<noteq> [] \<Longrightarrow> [] \<notin> set fs"
    "f \<in> set fs \<Longrightarrow> Suc j < length f \<Longrightarrow> split_cut t g (f ! j) (f ! Suc j) = Inr False"
    "Suc i < length fs \<Longrightarrow> split_cut t g (last (fs ! i)) (hd (fs ! Suc i)) = Inr True"
proof -
  show "concat fs = voc_idxs g"
    using assms chop_concat[of "split_cut t g" "voc_idxs g" fs]
    by (auto simp: fragments_def split: if_splits)
  show "fs \<noteq> []"
    using assms chop_hd[of "split_cut t g" "hd (voc_idxs g)" "tl (voc_idxs g)" fs]
    by (auto simp: fragments_def split: if_splits)
  show "[] \<notin> set fs" if "voc_idxs g \<noteq> []"
    using assms that chop_nonempty[of "split_cut t g" "voc_idxs g" fs]
    by (simp add: fragments_def)
  show "split_cut t g (f ! j) (f ! Suc j) = Inr False" if "f \<in> set fs" "Suc j < length f"
  proof (cases "voc_idxs g = []")
    case True
    with assms that show ?thesis by (auto simp: fragments_def)
  next
    case False
    with assms have "chop (split_cut t g) (voc_idxs g) = Inr fs" by (simp add: fragments_def)
    from chop_within[OF this that(1)] that(2) show ?thesis
      by (simp add: successively_conv_nth)
  qed
  show "split_cut t g (last (fs ! i)) (hd (fs ! Suc i)) = Inr True" if "Suc i < length fs"
  proof (cases "voc_idxs g = []")
    case True
    with assms that show ?thesis by (auto simp: fragments_def)
  next
    case False
    with assms have "chop (split_cut t g) (voc_idxs g) = Inr fs" by (simp add: fragments_def)
    from chop_across[OF this] that show ?thesis
      by (simp add: successively_conv_nth)
  qed
qed

text \<open>
  C3. When \<open>anneal_groups\<close> returns, its output groups are the concatenations of a cut of
  the input group list into runs; two adjacent groups of one run (a merged pair) have a
  silence of at most the threshold, and two adjacent groups of different runs with no
  barrier in between have a silence strictly greater than the threshold. So, where no
  barrier lies between them, a pair is merged exactly when its silence is \<open>\<le>\<close> the
  threshold. When \<open>split_groups\<close> returns, its output is, group by group, a cut of the
  group's index list; two consecutive members of one fragment have a gap strictly below
  the threshold and the members on the two sides of a cut have a gap \<open>\<ge>\<close> the threshold.
\<close>

theorem threshold_boundaries:
  "(anneal_groups gs t breaks = Inr out \<longrightarrow>
      (\<exists>runs. concat runs = gs \<and> [] \<notin> set runs \<and>
         map voc_idxs out = map (\<lambda>r. concat (map voc_idxs r)) runs \<and>
         (\<forall>r \<in> set runs. \<forall>j. Suc j < length r \<longrightarrow>
            (\<exists>d. delta_t_groups (r ! j) (r ! Suc j) = Inr d \<and> d \<le> t)) \<and>
         (\<forall>i. Suc i < length runs \<longrightarrow>
            (\<exists>e s. VocGroup_stop (last (runs ! i)) = Inr e \<and>
                   VocGroup_start (hd (runs ! Suc i)) = Inr s \<and>
                   ((\<forall>b \<in> set breaks. \<not> (e \<le> b \<and> b \<le> s)) \<longrightarrow> total_seconds (s - e) > t))))) \<and>
   (split_groups gs t = Inr out \<longrightarrow>
      (\<exists>fss. length fss = length gs \<and> map voc_idxs out = concat fss \<and>
         (\<forall>k < length gs.
            concat (fss ! k) = voc_idxs (gs ! k) \<and> fss ! k \<noteq> [] \<and>
            (voc_idxs (gs ! k) \<noteq> [] \<longrightarrow> [] \<notin> set (fss ! k)) \<and>
            (\<forall>f \<in> set (fss ! k). \<forall>j. Suc j < length f \<longrightarrow>
               delta_t (voc_list (gs ! k) ! (f ! j)) (voc_list (gs ! k) ! (f ! Suc j)) < t) \<and>
            (\<forall>i. Suc i < length (fss ! k) \<longrightarrow>
               delta_t (voc_list (gs ! k) ! last (fss ! k ! i))
                       (voc_list (gs ! k) ! hd (fss ! k ! Suc i)) \<ge> t))))"
proof (intro conjI impI)
  assume "anneal_groups gs t breaks = Inr out"
  from anneal_groups_runs[OF this] obtain runs where
    ch: "chop (anneal_cut t breaks) gs = Inr runs"
    and out: "map voc_idxs out = map (\<lambda>r. concat (map voc_idxs r)) runs" by blast
  have within: "\<exists>d. delta_t_groups (r ! j) (r ! Suc j) = Inr d \<and> d \<le> t"
    if "r \<in> set runs" "Suc j < length r" for r j
  proof -
    from chop_within[OF ch that(1)] that(2)
    have "anneal_cut t breaks (r ! j) (r ! Suc j) = Inr False"
      by (simp add: successively_conv_nth)
    from anneal_cut_Inr[OF this] show ?thesis
      by (auto simp: delta_t_groups_Inr)
  qed
  have across: "\<exists>e s. VocGroup_stop (last (runs ! i)) = Inr e \<and>
                   VocGroup_start (hd (runs ! Suc i)) = Inr s \<and>
                   ((\<forall>b \<in> set breaks. \<not> (e \<le> b \<and> b \<le> s)) \<longrightarrow> total_seconds (s - e) > t)"
    if "Suc i < length runs" for i
  proof -
    from chop_across[OF ch] that
    have "anneal_cut t breaks (last (runs ! i)) (hd (runs ! Suc i)) = Inr True"
      by (simp add: successively_conv_nth)
    from anneal_cut_Inr[OF this] show ?thesis by blast
  qed
  from chop_concat[OF ch] chop_nonempty[OF ch] out within across
  show "\<exists>runs. concat runs = gs \<and> [] \<notin> set runs \<and>
         map voc_idxs out = map (\<lambda>r. concat (map voc_idxs r)) runs \<and>
         (\<forall>r \<in> set runs. \<forall>j. Suc j < length r \<longrightarrow>
            (\<exists>d. delta_t_groups (r ! j) (r ! Suc j) = Inr d \<and> d \<le> t)) \<and>
         (\<forall>i. Suc i < length runs \<longrightarrow>
            (\<exists>e s. VocGroup_stop (last (runs ! i)) = Inr e \<and>
                   VocGroup_start (hd (runs ! Suc i)) = Inr s \<and>
                   ((\<forall>b \<in> set breaks. \<not> (e \<le> b \<and> b \<le> s)) \<longrightarrow> total_seconds (s - e) > t)))"
    by blast
next
  assume "split_groups gs t = Inr out"
  from split_groups_fragments[OF this] obtain fss where
    fr: "rmap (fragments t) gs = Inr fss" and out: "map voc_idxs out = concat fss" by blast
  have len: "length fss = length gs" using rmap_length[OF fr] .
  have each: "concat (fss ! k) = voc_idxs (gs ! k) \<and> fss ! k \<noteq> [] \<and>
            (voc_idxs (gs ! k) \<noteq> [] \<longrightarrow> [] \<notin> set (fss ! k)) \<and>
            (\<forall>f \<in> set (fss ! k). \<forall>j. Suc j < length f \<longrightarrow>
               delta_t (voc_list (gs ! k) ! (f ! j)) (voc_list (gs ! k) ! (f ! Suc j)) < t) \<and>
            (\<forall>i. Suc i < length (fss ! k) \<longrightarrow>
               delta_t (voc_list (gs ! k) ! last (fss ! k ! i))
                       (voc_list (gs ! k) ! hd (fss ! k ! Suc i)) \<ge> t)"
    if "k < length gs" for k
  proof -
    from rmap_nth[OF fr that] have f: "fragments t (gs ! k) = Inr (fss ! k)" .
    note p = fragments_props[OF f]
    have "delta_t (voc_list (gs ! k) ! (f ! j)) (voc_list (gs ! k) ! (f ! Suc j)) < t"
      if "f \<in> set (fss ! k)" "Suc j < length f" for f j
      using p(4)[OF that] by (simp add: split_cut_Inr)
    moreover have "delta_t (voc_list (gs ! k) ! last (fss ! k ! i))
                       (voc_list (gs ! k) ! hd (fss ! k ! Suc i)) \<ge> t"
      if "Suc i < length (fss ! k)" for i
      using p(5)[OF that] by (simp add: split_cut_Inr)
    ultimately show ?thesis using p(1,2,3) by blast
  qed
  from len out each
  show "\<exists>fss. length fss = length gs \<and> map voc_idxs out = concat fss \<and>
         (\<forall>k < length gs.
            concat (fss ! k) = voc_idxs (gs ! k) \<and> fss ! k \<noteq> [] \<and>
            (voc_idxs (gs ! k) \<noteq> [] \<longrightarrow> [] \<notin> set (fss ! k)) \<and>
            (\<forall>f \<in> set (fss ! k). \<forall>j. Suc j < length f \<longrightarrow>
               delta_t (voc_list (gs ! k) ! (f ! j)) (voc_list (gs ! k) ! (f ! Suc j)) < t) \<and>
            (\<forall>i. Suc i < length (fss ! k) \<longrightarrow>
               delta_t (voc_list (gs ! k) ! last (fss ! k ! i))
                       (voc_list (gs ! k) ! hd (fss ! k ! Suc i)) \<ge> t))"
    by blast
qed

theorem threshold_boundaries_witness:
  "anneal_groups [gaps_group [0], gaps_group [1], gaps_group [2]] (1/2) [] =
     Inr [gaps_group [0, 1], gaps_group [2]] \<and>
   split_groups [gaps_group [0, 1, 2]] (4/5) = Inr [gaps_group [0, 1], gaps_group [2]] \<and>
   (\<exists>runs. concat runs = [gaps_group [0], gaps_group [1], gaps_group [2]] \<and> [] \<notin> set runs \<and>
      map voc_idxs [gaps_group [0, 1], gaps_group [2]] = map (\<lambda>r. concat (map voc_idxs r)) runs) \<and>
   (\<exists>fss. length fss = length [gaps_group [0, 1, 2]] \<and>
      map voc_idxs [gaps_group [0, 1], gaps_group [2]] = concat fss)"
proof -
  have a: "anneal_groups [gaps_group [0], gaps_group [1], gaps_group [2]] (1/2) [] =
          Inr [gaps_group [0, 1], gaps_group [2]]"
    by (simp add: anneal_groups_def anneal_cut_def delta_t_groups_def VocGroup_start_def
          VocGroup_stop_def VocGroup_first_def VocGroup_last_def item_first_def item_last_def
          extend_last_def total_seconds_def VocGroup_init_def getitem_def gaps_group_def
          gaps_timeline_def)
  have s: "split_groups [gaps_group [0, 1, 2]] (4/5) = Inr [gaps_group [0, 1], gaps_group [2]]"
    by (simp add: split_groups_def split_cut_def delta_t_def enumerate_eq_zip
          total_seconds_def VocGroup_init_def getitem_def gaps_group_def
          gaps_timeline_def)
  from threshold_boundaries[of "[gaps_group [0], gaps_group [1], gaps_group [2]]" "1/2" "[]"
      "[gaps_group [0, 1], gaps_group [2]]"] a
  have r: "\<exists>runs. concat runs = [gaps_group [0], gaps_group [1], gaps_group [2]] \<and> [] \<notin> set runs \<and>
      map voc_idxs [gaps_group [0, 1], gaps_group [2]] = map (\<lambda>r. concat (map voc_idxs r)) runs"
    by blast
  from threshold_boundaries[of "[gaps_group [0, 1, 2]]" "4/5" "[]"
      "[gaps_group [0, 1], gaps_group [2]]"] s
  have f: "\<exists>fss. length fss = length [gaps_group [0, 1, 2]] \<and>
      map voc_idxs [gaps_group [0, 1], gaps_group [2]] = concat fss"
    by blast
  from a s r f show ?thesis by blast
qed

text \<open>
  C4. When \<open>anneal_groups\<close> returns, no two adjacent groups that were merged (adjacent in
  one run) have a barrier \<open>b\<close> with \<open>current.stop \<le> b \<le> next.start\<close>, whatever the
  threshold; the silence plays no part.
\<close>

theorem barrier_blocks_anneal:
  assumes "anneal_groups gs t breaks = Inr out"
  shows "\<exists>runs. concat runs = gs \<and> [] \<notin> set runs \<and>
           map voc_idxs out = map (\<lambda>r. concat (map voc_idxs r)) runs \<and>
           (\<forall>r \<in> set runs. \<forall>j. Suc j < length r \<longrightarrow>
              (\<exists>e s. VocGroup_stop (r ! j) = Inr e \<and> VocGroup_start (r ! Suc j) = Inr s \<and>
                     \<not> (\<exists>b \<in> set breaks. e \<le> b \<and> b \<le> s)))"
proof -
  from anneal_groups_runs[OF assms] obtain runs where
    ch: "chop (anneal_cut t breaks) gs = Inr runs"
    and out: "map voc_idxs out = map (\<lambda>r. concat (map voc_idxs r)) runs" by blast
  have "\<exists>e s. VocGroup_stop (r ! j) = Inr e \<and> VocGroup_start (r ! Suc j) = Inr s \<and>
                     \<not> (\<exists>b \<in> set breaks. e \<le> b \<and> b \<le> s)"
    if "r \<in> set runs" "Suc j < length r" for r j
  proof -
    from chop_within[OF ch that(1)] that(2)
    have "anneal_cut t breaks (r ! j) (r ! Suc j) = Inr False"
      by (simp add: successively_conv_nth)
    from anneal_cut_Inr[OF this] show ?thesis by blast
  qed
  with chop_concat[OF ch] chop_nonempty[OF ch] out show ?thesis by blast
qed

theorem barrier_blocks_anneal_witness:
  "anneal_groups [gaps_group [0], gaps_group [1], gaps_group [2]] 1 [1000000] =
     Inr [gaps_group [0, 1], gaps_group [2]] \<and>
   (\<exists>runs. concat runs = [gaps_group [0], gaps_group [1], gaps_group [2]] \<and> [] \<notin> set runs \<and>
      map voc_idxs [gaps_group [0, 1], gaps_group [2]] = map (\<lambda>r. concat (map voc_idxs r)) runs)"
proof -
  have a: "anneal_groups [gaps_group [0], gaps_group [1], gaps_group [2]] 1 [1000000] =
          Inr [gaps_group [0, 1], gaps_group [2]]"
    by (simp add: anneal_groups_def anneal_cut_def delta_t_groups_def VocGroup_start_def
          VocGroup_stop_def VocGroup_first_def VocGroup_last_def item_first_def item_last_def
          extend_last_def total_seconds_def VocGroup_init_def getitem_def gaps_group_def
          gaps_timeline_def)
  from barrier_blocks_anneal[OF a]
  have "\<exists>runs. concat runs = [gaps_group [0], gaps_group [1], gaps_group [2]] \<and> [] \<notin> set runs \<and>
      map voc_idxs [gaps_group [0, 1], gaps_group [2]] = map (\<lambda>r. concat (map voc_idxs r)) runs"
    by blast
  with a show ?thesis by blast
qed

section \<open>Splitting then annealing\<close>

lemma chop_total:
  "(\<forall>x \<in> set xs. \<forall>y \<in> set xs. \<exists>b. c x y = Inr b) \<Longrightarrow> \<exists>ss. chop c xs = Inr ss"
proof (induction c xs rule: chop.induct)
  case (3 c x y zs)
  then obtain b where b: "c x y = Inr b" by auto
  from 3 obtain ss where "chop c (y # zs) = Inr ss" by auto
  with b show ?case by simp
qed simp_all

lemma chop_no_cut:
  "successively (\<lambda>x y. c x y = Inr False) xs \<Longrightarrow> xs \<noteq> [] \<Longrightarrow> chop c xs = Inr [xs]"
  by (induction c xs rule: chop.induct) simp_all

lemma successively_concat_boundary:
  "successively Q (concat fs) \<Longrightarrow> [] \<notin> set fs \<Longrightarrow> successively (\<lambda>f f'. Q (last f) (hd f')) fs"
proof (induction fs rule: induct_list012)
  case (3 f f' rest)
  from "3.prems" have ne: "f \<noteq> []" "f' \<noteq> []" by auto
  from "3.prems"(1) have "successively Q (f @ (f' @ concat rest))" by simp
  then have a: "successively Q (f' @ concat rest)" and b: "Q (last f) (hd (f' @ concat rest))"
    using ne by (auto simp: successively_append_iff)
  from b ne have "Q (last f) (hd f')" by simp
  moreover from a "3.prems"(2) "3.IH"(2) have "successively (\<lambda>f f'. Q (last f) (hd f')) (f' # rest)"
    by simp
  ultimately show ?case by simp
qed simp_all

lemma rmap_VocGroup_init_total:
  "(\<forall>f \<in> set fs. \<forall>i \<in> set f. i < length vl) \<Longrightarrow>
   rmap (VocGroup_init vl) fs =
     Inr (map (\<lambda>f. \<lparr>voc_list = vl, voc_idxs = f, vocalizations = map ((!) vl) f\<rparr>) fs)"
proof (induction fs)
  case Nil
  show ?case by simp
next
  case (Cons f fs)
  then have "VocGroup_init vl f = Inr \<lparr>voc_list = vl, voc_idxs = f, vocalizations = map ((!) vl) f\<rparr>"
    by (simp add: VocGroup_init_Inr)
  with Cons show ?case by simp
qed

lemma anneal_cut_no_breaks:
  assumes "f \<noteq> []" "f' \<noteq> []"
  shows "anneal_cut T []
           \<lparr>voc_list = vl, voc_idxs = f, vocalizations = map ((!) vl) f\<rparr>
           \<lparr>voc_list = vl, voc_idxs = f', vocalizations = map ((!) vl) f'\<rparr> =
         Inr (delta_t (vl ! last f) (vl ! hd f') > T)"
  using assms
  by (cases f') (simp_all add: anneal_cut_def delta_t_groups_def VocGroup_start_def
      VocGroup_stop_def VocGroup_first_def VocGroup_last_def item_first_def item_last_def
      delta_t_def last_map)

text \<open>
  C8. For a group \<open>g\<close> as its constructor builds it, with at least one index, and a
  threshold \<open>T\<close> that no gap between consecutive members of \<open>g\<close> exceeds: \<open>split_groups\<close>
  returns on \<open>[g]\<close> for any split threshold, and annealing its output with \<open>T\<close> and no
  barriers returns the one group \<open>g\<close>, index list included.
\<close>

theorem split_then_anneal:
  assumes valid: "VocGroup_init (voc_list g) (voc_idxs g) = Inr g"
    and ne: "voc_idxs g \<noteq> []"
    and big: "\<forall>k. Suc k < length (voc_idxs g) \<longrightarrow>
                delta_t (voc_list g ! (voc_idxs g ! k)) (voc_list g ! (voc_idxs g ! Suc k)) \<le> T"
  shows "\<exists>frs. split_groups [g] t = Inr frs \<and> anneal_groups frs T [] = Inr [g]"
proof -
  let ?vl = "voc_list g" and ?idxs = "voc_idxs g"
  let ?mk = "\<lambda>f. \<lparr>voc_list = ?vl, voc_idxs = f, vocalizations = map ((!) ?vl) f\<rparr>"
  from valid have rng: "\<forall>i \<in> set ?idxs. i < length ?vl"
    by (simp add: VocGroup_init_Inr)
  then have "\<forall>x \<in> set ?idxs. \<forall>y \<in> set ?idxs. \<exists>b. split_cut t g x y = Inr b"
    by (simp add: split_cut_Inr)
  from chop_total[OF this] obtain fs where ch: "chop (split_cut t g) ?idxs = Inr fs" by blast
  note cc = chop_concat[OF ch] and cn = chop_nonempty[OF ch]
  from cc ne have fsne: "fs \<noteq> []" by auto
  have "set ?idxs = (\<Union>f \<in> set fs. set f)" using cc by (metis set_concat)
  with rng have "\<forall>f \<in> set fs. \<forall>i \<in> set f. i < length ?vl" by blast
  from rmap_VocGroup_init_total[OF this]
  have rm: "rmap (VocGroup_init ?vl) fs = Inr (map ?mk fs)" .
  have sp: "split_groups [g] t = Inr (map ?mk fs)"
    using ch ne rm by (simp add: split_groups_def split_outer_fragments fragments_def)
  have "successively (\<lambda>a b. delta_t (?vl ! a) (?vl ! b) \<le> T) (concat fs)"
    using big cc by (simp add: successively_conv_nth)
  from successively_concat_boundary[OF this cn]
  have "successively (\<lambda>f f'. delta_t (?vl ! last f) (?vl ! hd f') \<le> T) fs" .
  then have "successively (\<lambda>f f'. anneal_cut T [] (?mk f) (?mk f') = Inr False) fs"
  proof (rule successively_mono)
    fix f f' assume "f \<in> set fs" "f' \<in> set fs" "delta_t (?vl ! last f) (?vl ! hd f') \<le> T"
    with cn have "f \<noteq> []" "f' \<noteq> []" by auto
    from anneal_cut_no_breaks[OF this] \<open>delta_t (?vl ! last f) (?vl ! hd f') \<le> T\<close>
    show "anneal_cut T [] (?mk f) (?mk f') = Inr False" by simp
  qed
  then have "successively (\<lambda>x y. anneal_cut T [] x y = Inr False) (map ?mk fs)"
    by (simp add: successively_map)
  from chop_no_cut[OF this] fsne
  have runs: "chop (anneal_cut T []) (map ?mk fs) = Inr [map ?mk fs]" by simp
  obtain f0 rest where fs: "fs = f0 # rest" using fsne by (cases fs) auto
  have idx: "concat (map voc_idxs (map ?mk fs)) = ?idxs"
    using cc by (simp add: comp_def)
  have "anneal_loop T [] (pairwise (?mk f0 # map ?mk rest)) ([] @ [voc_idxs (?mk f0)]) =
        Inr [?idxs]"
    unfolding anneal_loop_chop using runs idx fs by simp
  then have "anneal_groups (map ?mk fs) T [] = Inr [g]"
    using fs valid by (simp add: anneal_groups_def)
  with sp show ?thesis by simp
qed

theorem split_then_anneal_witness:
  "VocGroup_init (voc_list (gaps_group [0, 1, 2])) (voc_idxs (gaps_group [0, 1, 2])) =
     Inr (gaps_group [0, 1, 2]) \<and>
   voc_idxs (gaps_group [0, 1, 2]) \<noteq> [] \<and>
   split_groups [gaps_group [0, 1, 2]] (4/5) = Inr [gaps_group [0, 1], gaps_group [2]] \<and>
   anneal_groups [gaps_group [0, 1], gaps_group [2]] 1 [] = Inr [gaps_group [0, 1, 2]]"
proof -
  let ?g = "gaps_group [0, 1, 2]"
  have v: "VocGroup_init (voc_list ?g) (voc_idxs ?g) = Inr ?g"
    by (simp add: VocGroup_init_def getitem_def gaps_group_def gaps_timeline_def)
  have n: "voc_idxs ?g \<noteq> []"
    by (simp add: gaps_group_def)
  have b: "\<forall>k. Suc k < length (voc_idxs ?g) \<longrightarrow>
             delta_t (voc_list ?g ! (voc_idxs ?g ! k)) (voc_list ?g ! (voc_idxs ?g ! Suc k)) \<le> 1"
  proof (intro allI impI)
    fix k assume "Suc k < length (voc_idxs ?g)"
    then have "k = 0 \<or> k = 1" by (auto simp: gaps_group_def)
    then show "delta_t (voc_list ?g ! (voc_idxs ?g ! k)) (voc_list ?g ! (voc_idxs ?g ! Suc k)) \<le> 1"
      by (auto simp: gaps_group_def gaps_timeline_def delta_t_def total_seconds_def)
  qed
  have s: "split_groups [?g] (4/5) = Inr [gaps_group [0, 1], gaps_group [2]]"
    by (simp add: split_groups_def split_cut_def delta_t_def enumerate_eq_zip
          total_seconds_def VocGroup_init_def getitem_def gaps_group_def
          gaps_timeline_def)
  from split_then_anneal[OF v n b, of "4/5"] s
  have "anneal_groups [gaps_group [0, 1], gaps_group [2]] 1 [] = Inr [?g]"
    by auto
  with v n s show ?thesis by blast
qed

section \<open>Bout assembly\<close>

lemma Bout_init_fields:
  "Bout_init vl ig sg = Inr b \<Longrightarrow>
   intro_idxs b = voc_idxs ig \<and> syll_idxs b = voc_idxs sg \<and> motifs b = None \<and>
   intro_notes b = vocalizations ig \<and> syllables b = vocalizations sg"
  by (auto simp: Bout_init_def Let_def rbind_eq_Inr)

lemma rfilter_Inr: "rfilter p xs = Inr ys \<Longrightarrow> y \<in> set ys \<Longrightarrow> y \<in> set xs \<and> p y = Inr True"
proof (induction xs arbitrary: ys)
  case Nil
  then show ?case by simp
next
  case (Cons x xs)
  from Cons.prems(1) obtain b zs where b: "p x = Inr b" and zs: "rfilter p xs = Inr zs"
    and ys: "ys = (if b then x # zs else zs)"
    by (auto simp: rbind_eq_Inr)
  show ?case
  proof (cases "y \<in> set zs")
    case True
    from Cons.IH[OF zs True] show ?thesis by simp
  next
    case False
    with ys Cons.prems(2) have "b \<and> y = x" by (auto split: if_splits)
    with b show ?thesis by simp
  qed
qed

lemma candidates_Inr:
  assumes "candidates ig sg = Inr cs" "i \<in> set cs"
  shows "i < length sg \<and>
         (\<exists>e s. VocGroup_stop ig = Inr e \<and> VocGroup_start (sg ! i) = Inr s \<and> e < s)"
proof -
  let ?p = "\<lambda>p. rbind (VocGroup_stop ig) (\<lambda>e. rbind (VocGroup_start (snd p)) (\<lambda>s. Inr (e < s)))"
  from assms(1) obtain ps where ps: "rfilter ?p (enumerate 0 sg) = Inr ps" and cs: "cs = map fst ps"
    by (auto simp: candidates_def rbind_eq_Inr)
  from assms(2) cs obtain g where "(i, g) \<in> set ps" by auto
  from rfilter_Inr[OF ps this] have m: "(i, g) \<in> set (enumerate 0 sg)" and t: "?p (i, g) = Inr True"
    by auto
  from m have "i < length sg" "g = sg ! i" by (auto simp: in_set_enumerate_eq)
  with t show ?thesis by (auto simp: rbind_eq_Inr)
qed

lemma bouts_loop_append:
  "bouts_loop t (xs @ ys) sg bs =
     rbind (bouts_loop t xs sg bs) (\<lambda>r. bouts_loop t ys (fst r) (snd r))"
proof (induction xs arbitrary: sg bs)
  case Nil
  show ?case by simp
next
  case (Cons ig xs)
  show ?case
    by (simp add: Cons.IH rbind_assoc if_distrib[where f="\<lambda>m. rbind m _"] cong: if_cong)
qed

lemma py_min_key_Nil [simp]: "py_min_key f [] = Inl ValueError"
  by (simp add: py_min_key_def)

lemma bouts_loop_unmatched:
  assumes "\<forall>g \<in> set sg_left. \<not> (\<exists>e s. VocGroup_stop ig = Inr e \<and> VocGroup_start g = Inr s \<and> e < s)"
  shows "\<exists>err. bouts_loop t (ig # rest) sg_left bouts = Inl err"
proof (cases "candidates ig sg_left")
  case (Inl e)
  then show ?thesis by simp
next
  case (Inr cs)
  have "cs = []"
  proof (rule ccontr)
    assume "cs \<noteq> []"
    then obtain i where "i \<in> set cs" by (cases cs) auto
    from candidates_Inr[OF Inr this] assms show False by (meson nth_mem)
  qed
  with Inr show ?thesis by simp
qed

lemma rfilter_none: "\<forall>x \<in> set xs. p x = Inr False \<Longrightarrow> rfilter p xs = Inr []"
  by (induction xs) simp_all

lemma candidates_none:
  assumes "\<forall>g \<in> set sg_left. \<exists>e s. VocGroup_stop ig = Inr e \<and> VocGroup_start g = Inr s \<and> \<not> e < s"
  shows "candidates ig sg_left = Inr []"
proof -
  have "\<forall>p \<in> set (enumerate 0 sg_left).
          rbind (VocGroup_stop ig) (\<lambda>e. rbind (VocGroup_start (snd p)) (\<lambda>s. Inr (e < s))) = Inr False"
  proof
    fix p assume m: "p \<in> set (enumerate 0 sg_left)"
    obtain i g where pe: "p = (i, g)" by (cases p)
    with m have "snd p \<in> set sg_left" by (auto simp: in_set_enumerate_eq)
    with assms obtain e s where "VocGroup_stop ig = Inr e" "VocGroup_start (snd p) = Inr s" "\<not> e < s"
      by blast
    then show "rbind (VocGroup_stop ig) (\<lambda>e. rbind (VocGroup_start (snd p)) (\<lambda>s. Inr (e < s))) = Inr False"
      by simp
  qed
  from rfilter_none[OF this] show ?thesis by (simp add: candidates_def)
qed

text \<open>
  An intro group with no later song group, a song group with no events and no intro group
  at all, and two different unmatched intro groups all end in the same bare \<open>ValueError\<close>,
  and an unmatched intro group with no events ends in \<open>IndexError\<close>: the exception does not
  say that an intro group was left unmatched, nor which.
\<close>

theorem unmatched_intro_group_counterexample:
  "define_bouts [gaps_group [2]] [gaps_group [1]] (1/2) = Inl ValueError \<and>
   define_bouts [] [empty_group gaps_timeline] (1/2) = Inl ValueError \<and>
   define_bouts [gaps_group [0]] [] (1/2) = Inl ValueError \<and>
   define_bouts [gaps_group [1]] [] (1/2) = Inl ValueError \<and>
   define_bouts [empty_group gaps_timeline] [gaps_group [1]] (1/2) = Inl IndexError"
  by (simp add: define_bouts_def candidates_def py_min_key_def VocGroup_start_def
        VocGroup_stop_def VocGroup_first_def VocGroup_last_def item_first_def item_last_def
        enumerate_eq_zip VocGroup_init_def Bout_init_def py_min_def empty_group_def
        gaps_group_def gaps_timeline_def)

text \<open>
  C5 (amended). When the loop of \<open>define_bouts\<close> reaches an intro group (after the intro
  groups \<open>pre\<close>, with the pool \<open>sg_left\<close> that they left) and no group of the pool starts
  strictly after that intro group's stop, \<open>define_bouts\<close> raises a built-in exception; no
  bout list is returned, so the intro group is not dropped. Where the stop of the intro
  group and the starts of the pool can be read, the exception is the \<open>ValueError\<close> of
  \<open>min\<close> over no candidates, in particular with an exhausted pool and for any non-empty
  \<open>intro_groups\<close> and no song groups. No error of the module's own is raised.
\<close>

theorem unmatched_intro_group_fails:
  "(bouts_loop t pre sgs [] = Inr (sg_left, bouts) \<and>
    (\<forall>g \<in> set sg_left.
       \<exists>e s. VocGroup_stop ig = Inr e \<and> VocGroup_start g = Inr s \<and> \<not> e < s) \<longrightarrow>
      define_bouts (pre @ ig # post) sgs t = Inl ValueError) \<and>
   (bouts_loop t pre sgs [] = Inr (sg_left, bouts) \<and>
    (\<forall>g \<in> set sg_left.
       \<not> (\<exists>e s. VocGroup_stop ig = Inr e \<and> VocGroup_start g = Inr s \<and> e < s)) \<longrightarrow>
      (\<exists>err. define_bouts (pre @ ig # post) sgs t = Inl err)) \<and>
   (bouts_loop t pre sgs [] = Inr ([], bouts) \<longrightarrow>
      define_bouts (pre @ ig # post) sgs t = Inl ValueError) \<and>
   (igs \<noteq> [] \<longrightarrow> define_bouts igs [] t = Inl ValueError)"
proof (intro conjI impI)
  assume a: "bouts_loop t pre sgs [] = Inr (sg_left, bouts) \<and>
    (\<forall>g \<in> set sg_left.
       \<exists>e s. VocGroup_stop ig = Inr e \<and> VocGroup_start g = Inr s \<and> \<not> e < s)"
  then have "candidates ig sg_left = Inr []"
    using candidates_none by blast
  with a have "bouts_loop t (pre @ ig # post) sgs [] = Inl ValueError"
    by (simp add: bouts_loop_append)
  then show "define_bouts (pre @ ig # post) sgs t = Inl ValueError"
    by (simp add: define_bouts_def)
next
  assume a: "bouts_loop t pre sgs [] = Inr (sg_left, bouts) \<and>
    (\<forall>g \<in> set sg_left.
       \<not> (\<exists>e s. VocGroup_stop ig = Inr e \<and> VocGroup_start g = Inr s \<and> e < s))"
  then obtain err where "bouts_loop t (ig # post) sg_left bouts = Inl err"
    using bouts_loop_unmatched by blast
  with a have "bouts_loop t (pre @ ig # post) sgs [] = Inl err"
    by (simp add: bouts_loop_append del: bouts_loop.simps)
  then show "\<exists>err. define_bouts (pre @ ig # post) sgs t = Inl err"
    by (simp add: define_bouts_def)
next
  assume "bouts_loop t pre sgs [] = Inr ([], bouts)"
  then have "bouts_loop t (pre @ ig # post) sgs [] = Inl ValueError"
    by (simp add: bouts_loop_append candidates_def)
  then show "define_bouts (pre @ ig # post) sgs t = Inl ValueError"
    by (simp add: define_bouts_def)
next
  assume "igs \<noteq> []"
  then obtain ig rest where "igs = ig # rest" by (cases igs) auto
  then show "define_bouts igs [] t = Inl ValueError"
    by (simp add: define_bouts_def candidates_def)
qed

theorem unmatched_intro_group_fails_witness:
  "(\<exists>bouts. bouts_loop (1/2) [gaps_group [0]] [gaps_group [1]] [] = Inr ([], bouts)) \<and>
   define_bouts ([gaps_group [0]] @ gaps_group [2] # []) [gaps_group [1]] (1/2) = Inl ValueError \<and>
   define_bouts ([] @ gaps_group [1] # []) [gaps_group [0]] (1/2) = Inl ValueError \<and>
   (\<exists>err. define_bouts ([] @ gaps_group [1] # []) [gaps_group [0]] (1/2) = Inl err) \<and>
   define_bouts [gaps_group [0]] [] (1/2) = Inl ValueError"
proof -
  have l: "\<exists>bouts. bouts_loop (1/2) [gaps_group [0]] [gaps_group [1]] [] = Inr ([], bouts)"
    by (simp add: candidates_def py_min_key_def delta_t_groups_def VocGroup_start_def
          VocGroup_stop_def VocGroup_first_def VocGroup_last_def item_first_def item_last_def
          total_seconds_def getitem_def Bout_init_def py_min_def py_max_def gaps_group_def
          gaps_timeline_def enumerate_eq_zip)
  then obtain bouts where b: "bouts_loop (1/2) [gaps_group [0]] [gaps_group [1]] [] = Inr ([], bouts)"
    by blast
  from unmatched_intro_group_fails[of "1/2" "[gaps_group [0]]" "[gaps_group [1]]" "[]" bouts
      "gaps_group [2]" "[]" "[]"] b
  have c2: "define_bouts ([gaps_group [0]] @ gaps_group [2] # []) [gaps_group [1]] (1/2) = Inl ValueError"
    by blast
  have n: "bouts_loop (1/2) [] [gaps_group [0]] [] = Inr ([gaps_group [0]], []) \<and>
    (\<forall>g \<in> set [gaps_group [0]].
       \<exists>e s. VocGroup_stop (gaps_group [1]) = Inr e \<and> VocGroup_start g = Inr s \<and> \<not> e < s)"
    by (simp add: VocGroup_start_def VocGroup_stop_def VocGroup_first_def VocGroup_last_def
          item_first_def item_last_def gaps_group_def gaps_timeline_def)
  from unmatched_intro_group_fails[of "1/2" "[]" "[gaps_group [0]]" "[gaps_group [0]]" "[]"
      "gaps_group [1]" "[]" "[]"] n
  have c1: "define_bouts ([] @ gaps_group [1] # []) [gaps_group [0]] (1/2) = Inl ValueError"
    by blast
  have n': "bouts_loop (1/2) [] [gaps_group [0]] [] = Inr ([gaps_group [0]], []) \<and>
    (\<forall>g \<in> set [gaps_group [0]].
       \<not> (\<exists>e s. VocGroup_stop (gaps_group [1]) = Inr e \<and> VocGroup_start g = Inr s \<and> e < s))"
    by (simp add: VocGroup_start_def VocGroup_stop_def VocGroup_first_def VocGroup_last_def
          item_first_def item_last_def gaps_group_def gaps_timeline_def)
  from unmatched_intro_group_fails[of "1/2" "[]" "[gaps_group [0]]" "[gaps_group [0]]" "[]"
      "gaps_group [1]" "[]" "[]"] n'
  have c1': "\<exists>err. define_bouts ([] @ gaps_group [1] # []) [gaps_group [0]] (1/2) = Inl err"
    by blast
  have "[gaps_group [0]] \<noteq> []" by simp
  with unmatched_intro_group_fails[of "1/2" "[]" "[]" "[]" "[]" "gaps_group [0]" "[]" "[gaps_group [0]]"]
  have c3: "define_bouts [gaps_group [0]] [] (1/2) = Inl ValueError"
    by blast
  from l c1 c1' c2 c3 show ?thesis by blast
qed

lemma mset_concat_map_cong:
  "mset ys = mset xs \<Longrightarrow> mset (concat (map f ys)) = mset (concat (map f xs))"
proof -
  assume a: "mset ys = mset xs"
  have "mset (concat (map f zs)) = sum_mset (image_mset (\<lambda>z. mset (f z)) (mset zs))" for zs
    by (induction zs) simp_all
  with a show ?thesis by simp
qed

lemma py_sorted_mset: "py_sorted f xs = Inr ys \<Longrightarrow> mset ys = mset xs"
proof -
  assume "py_sorted f xs = Inr ys"
  then obtain ks where ks: "rmap f xs = Inr ks" and ys: "ys = map snd (sort_key fst (zip ks xs))"
    by (auto simp: py_sorted_def rbind_eq_Inr)
  from rmap_length[OF ks] have l: "length ks = length xs" .
  have "mset ys = image_mset snd (mset (zip ks xs))" using ys by simp
  also have "\<dots> = mset (map snd (zip ks xs))" by simp
  also have "\<dots> = mset xs" using l by simp
  finally show ?thesis .
qed

lemma bouts_loop_mset:
  "bouts_loop t igs sg_left bouts = Inr (sg', bouts') \<Longrightarrow>
   mset (concat (map (\<lambda>b. intro_idxs b @ syll_idxs b) bouts')) + mset (concat (map voc_idxs sg')) =
   mset (concat (map (\<lambda>b. intro_idxs b @ syll_idxs b) bouts)) + mset (concat (map voc_idxs igs))
     + mset (concat (map voc_idxs sg_left))"
proof (induction igs arbitrary: sg_left bouts)
  case Nil
  then show ?case by simp
next
  case (Cons ig rest)
  from Cons.prems obtain cands near_idx near_sg d where
    nsg: "getitem sg_left near_idx = Inr near_sg"
    and step: "(if d \<le> t then
         rbind (Bout_init (voc_list ig) ig near_sg) (\<lambda>b.
           bouts_loop t rest (take near_idx sg_left @ drop (Suc near_idx) sg_left) (bouts @ [b]))
       else
         rbind (VocGroup_init (voc_list ig) []) (\<lambda>eg.
         rbind (Bout_init (voc_list ig) ig eg) (\<lambda>b.
           bouts_loop t rest sg_left (bouts @ [b])))) = Inr (sg', bouts')"
    by (auto simp: rbind_eq_Inr)
  from nsg have n: "near_idx < length sg_left" and e: "near_sg = sg_left ! near_idx"
    by (auto simp: getitem_def split: if_splits)
  show ?case
  proof (cases "d \<le> t")
    case True
    with step obtain b where b: "Bout_init (voc_list ig) ig near_sg = Inr b"
      and r: "bouts_loop t rest (take near_idx sg_left @ drop (Suc near_idx) sg_left) (bouts @ [b])
              = Inr (sg', bouts')"
      by (auto simp: rbind_eq_Inr)
    from id_take_nth_drop[OF n] e
    have "sg_left = take near_idx sg_left @ near_sg # drop (Suc near_idx) sg_left" by simp
    then have "mset (concat (map voc_idxs sg_left)) =
        mset (concat (map voc_idxs (take near_idx sg_left @ near_sg # drop (Suc near_idx) sg_left)))"
      by simp
    then have m: "mset (concat (map voc_idxs sg_left)) =
        mset (concat (map voc_idxs (take near_idx sg_left @ drop (Suc near_idx) sg_left)))
        + mset (voc_idxs near_sg)"
      by simp
    from Cons.IH[OF r] Bout_init_fields[OF b] m show ?thesis by simp
  next
    case False
    with step obtain eg b where eg: "VocGroup_init (voc_list ig) [] = Inr eg"
      and b: "Bout_init (voc_list ig) ig eg = Inr b"
      and r: "bouts_loop t rest sg_left (bouts @ [b]) = Inr (sg', bouts')"
      by (auto simp: rbind_eq_Inr)
    from eg have "voc_idxs eg = []" by (simp add: VocGroup_init_Inr)
    with Cons.IH[OF r] Bout_init_fields[OF b] show ?thesis by simp
  qed
qed

lemma leftover_bouts_idxs:
  "rmap (\<lambda>g. rbind (VocGroup_init (voc_list g) []) (\<lambda>eg. Bout_init (voc_list g) eg g)) sgs = Inr extra
   \<Longrightarrow> concat (map (\<lambda>b. intro_idxs b @ syll_idxs b) extra) = concat (map voc_idxs sgs)"
proof (induction sgs arbitrary: extra)
  case Nil
  then show ?case by simp
next
  case (Cons g sgs)
  from Cons.prems obtain eg b rest where eg: "VocGroup_init (voc_list g) [] = Inr eg"
    and b: "Bout_init (voc_list g) eg g = Inr b"
    and rest: "rmap (\<lambda>g. rbind (VocGroup_init (voc_list g) []) (\<lambda>eg. Bout_init (voc_list g) eg g)) sgs
        = Inr rest"
    and extra: "extra = b # rest"
    by (auto simp: rbind_eq_Inr)
  from eg have "voc_idxs eg = []" by (simp add: VocGroup_init_Inr)
  with Cons.IH[OF rest] Bout_init_fields[OF b] extra show ?case by simp
qed

lemma define_bouts_mset:
  assumes "define_bouts igs sgs t = Inr bouts"
  shows "mset (concat (map (\<lambda>b. intro_idxs b @ syll_idxs b) bouts)) =
         mset (concat (map voc_idxs igs)) + mset (concat (map voc_idxs sgs))"
proof -
  from assms obtain sg' bs extra where
    l: "bouts_loop t igs sgs [] = Inr (sg', bs)"
    and m: "rmap (\<lambda>g. rbind (VocGroup_init (voc_list g) []) (\<lambda>eg. Bout_init (voc_list g) eg g)) sg'
        = Inr extra"
    and s: "py_sorted Bout_start (bs @ extra) = Inr bouts"
    by (auto simp: define_bouts_def rbind_eq_Inr)
  from mset_concat_map_cong[OF py_sorted_mset[OF s]]
  have "mset (concat (map (\<lambda>b. intro_idxs b @ syll_idxs b) bouts)) =
        mset (concat (map (\<lambda>b. intro_idxs b @ syll_idxs b) (bs @ extra)))" .
  also have "\<dots> = mset (concat (map (\<lambda>b. intro_idxs b @ syll_idxs b) bs)) +
                   mset (concat (map voc_idxs sg'))"
    using leftover_bouts_idxs[OF m] by simp
  also have "\<dots> = mset (concat (map voc_idxs igs)) + mset (concat (map voc_idxs sgs))"
    using bouts_loop_mset[OF l] by simp
  finally show ?thesis .
qed

lemma distinct_concat_unique:
  "distinct (concat xss) \<Longrightarrow> k < length xss \<Longrightarrow> k' < length xss \<Longrightarrow>
   i \<in> set (xss ! k) \<Longrightarrow> i \<in> set (xss ! k') \<Longrightarrow> k = k'"
proof (induction xss arbitrary: k k')
  case Nil
  then show ?case by simp
next
  case (Cons xs xss)
  from Cons.prems(1) have d: "distinct (concat xss)" and dj: "set xs \<inter> set (concat xss) = {}"
    by auto
  have no: False if "i \<in> set xs" "j < length xss" "i \<in> set (xss ! j)" for j
  proof -
    from that(2,3) have "i \<in> set (concat xss)" by (auto intro: nth_mem)
    with that(1) dj show False by blast
  qed
  show ?case
  proof (cases k)
    case 0
    show ?thesis
    proof (cases k')
      case 0
      with \<open>k = 0\<close> show ?thesis by simp
    next
      case (Suc j)
      with 0 Cons.prems no[of j] show ?thesis by simp
    qed
  next
    case (Suc j)
    show ?thesis
    proof (cases k')
      case 0
      with Suc Cons.prems no[of j] show ?thesis by simp
    next
      case (Suc j')
      with \<open>k = Suc j\<close> Cons.prems Cons.IH[OF d, of j j'] show ?thesis by simp
    qed
  qed
qed

text \<open>
  With the intro stream [[0]] and the song stream [[0], [1]] the index 0, which occurs in
  both streams, is in the intro sub-group of the first returned bout and in the syllable
  sub-group of the second.
\<close>

theorem bout_completeness_counterexample:
  "define_bouts [gaps_group [0]] [gaps_group [0], gaps_group [1]] (1/2) =
     Inr [gaps_bout [0] [1], gaps_bout [] [0]] \<and>
   (0::nat) \<in> set (concat (map voc_idxs [gaps_group [0]])) \<and>
   (0::nat) \<in> set (intro_idxs (gaps_bout [0] [1]) @ syll_idxs (gaps_bout [0] [1])) \<and>
   (0::nat) \<in> set (intro_idxs (gaps_bout [] [0]) @ syll_idxs (gaps_bout [] [0]))"
  by (simp add: define_bouts_def candidates_def py_min_key_def delta_t_groups_def
        VocGroup_start_def VocGroup_stop_def VocGroup_first_def VocGroup_last_def item_first_def
        item_last_def total_seconds_def getitem_def Bout_init_def py_min_def py_max_def
        gaps_group_def gaps_timeline_def enumerate_eq_zip VocGroup_init_def py_sorted_def
        Bout_start_def Bout_first_def gaps_bout_def)

text \<open>
  C6 (amended). When \<open>define_bouts\<close> returns, the indices in the intro and syllable
  sub-groups of the returned bouts are, counted with multiplicity, exactly the indices of
  the intro stream and of the song stream; and when no index occurs twice in the two
  streams, each of their indices is in the sub-groups of exactly one returned bout.
\<close>

theorem bout_completeness:
  assumes "define_bouts igs sgs t = Inr bouts"
  shows "mset (concat (map (\<lambda>b. intro_idxs b @ syll_idxs b) bouts)) =
           mset (concat (map voc_idxs igs)) + mset (concat (map voc_idxs sgs)) \<and>
         (distinct (concat (map voc_idxs igs) @ concat (map voc_idxs sgs)) \<longrightarrow>
            (\<forall>i \<in> set (concat (map voc_idxs igs)) \<union> set (concat (map voc_idxs sgs)).
               \<exists>!k. k < length bouts \<and> i \<in> set (intro_idxs (bouts ! k) @ syll_idxs (bouts ! k))))"
proof (intro conjI impI ballI)
  let ?f = "\<lambda>b. intro_idxs b @ syll_idxs b"
  let ?in = "concat (map voc_idxs igs) @ concat (map voc_idxs sgs)"
  show m: "mset (concat (map ?f bouts)) =
           mset (concat (map voc_idxs igs)) + mset (concat (map voc_idxs sgs))"
    by (rule define_bouts_mset[OF assms])
  fix i
  assume d: "distinct ?in"
    and i: "i \<in> set (concat (map voc_idxs igs)) \<union> set (concat (map voc_idxs sgs))"
  from m have me: "mset (concat (map ?f bouts)) = mset ?in" by simp
  from mset_eq_imp_distinct_iff[OF me] d have dd: "distinct (concat (map ?f bouts))" by simp
  from mset_eq_setD[OF me] i have "i \<in> set (concat (map ?f bouts))" by simp
  then obtain b where "b \<in> set bouts" "i \<in> set (?f b)" by auto
  then obtain k where k: "k < length bouts" "i \<in> set (?f (bouts ! k))"
    by (auto simp: in_set_conv_nth)
  show "\<exists>!k. k < length bouts \<and> i \<in> set (intro_idxs (bouts ! k) @ syll_idxs (bouts ! k))"
  proof (rule ex1I[of _ k])
    from k show "k < length bouts \<and> i \<in> set (intro_idxs (bouts ! k) @ syll_idxs (bouts ! k))"
      by simp
  next
    fix k' assume k': "k' < length bouts \<and> i \<in> set (intro_idxs (bouts ! k') @ syll_idxs (bouts ! k'))"
    from distinct_concat_unique[OF dd, of k' k i] k k' show "k' = k" by simp
  qed
qed

theorem bout_completeness_witness:
  "define_bouts [gaps_group [0]] [gaps_group [1], gaps_group [2]] (1/2) =
     Inr [gaps_bout [0] [1], gaps_bout [] [2]] \<and>
   distinct (concat (map voc_idxs [gaps_group [0]]) @
             concat (map voc_idxs [gaps_group [1], gaps_group [2]])) \<and>
   mset (concat (map (\<lambda>b. intro_idxs b @ syll_idxs b) [gaps_bout [0] [1], gaps_bout [] [2]])) =
     mset (concat (map voc_idxs [gaps_group [0]])) +
     mset (concat (map voc_idxs [gaps_group [1], gaps_group [2]])) \<and>
   (\<exists>k. k < length [gaps_bout [0] [1], gaps_bout [] [2]] \<and>
        2 \<in> set (intro_idxs ([gaps_bout [0] [1], gaps_bout [] [2]] ! k) @
                 syll_idxs ([gaps_bout [0] [1], gaps_bout [] [2]] ! k)))"
proof -
  let ?out = "[gaps_bout [0] [1], gaps_bout [] [2]]"
  have h: "define_bouts [gaps_group [0]] [gaps_group [1], gaps_group [2]] (1/2) = Inr ?out"
    by (simp add: define_bouts_def candidates_def py_min_key_def delta_t_groups_def
        VocGroup_start_def VocGroup_stop_def VocGroup_first_def VocGroup_last_def item_first_def
        item_last_def total_seconds_def getitem_def Bout_init_def py_min_def py_max_def
        gaps_group_def gaps_timeline_def enumerate_eq_zip VocGroup_init_def py_sorted_def
        Bout_start_def Bout_first_def gaps_bout_def)
  have d: "distinct (concat (map voc_idxs [gaps_group [0]]) @
             concat (map voc_idxs [gaps_group [1], gaps_group [2]]))"
    by (simp add: gaps_group_def)
  have i: "2 \<in> set (concat (map voc_idxs [gaps_group [0]])) \<union>
               set (concat (map voc_idxs [gaps_group [1], gaps_group [2]]))"
    by (simp add: gaps_group_def)
  note t = bout_completeness[OF h]
  from t have m: "mset (concat (map (\<lambda>b. intro_idxs b @ syll_idxs b) ?out)) =
     mset (concat (map voc_idxs [gaps_group [0]])) +
     mset (concat (map voc_idxs [gaps_group [1], gaps_group [2]]))"
    by blast
  from t d i have "\<exists>!k. k < length ?out \<and> 2 \<in> set (intro_idxs (?out ! k) @ syll_idxs (?out ! k))"
    by blast
  then have "\<exists>k. k < length ?out \<and> 2 \<in> set (intro_idxs (?out ! k) @ syll_idxs (?out ! k))"
    by blast
  with h d m show ?thesis by blast
qed

section \<open>Start, stop and duration of a bout\<close>

lemma full_parse_assembled:
  "full_parse vl bm ia sa isp ssp ba pm pa =
     rbind (assembled_bouts vl bm ia sa isp ssp ba) (\<lambda>bouts.
     rbind (if pm then rmap (\<lambda>b. parse_motifs b (bird_syllables bm) (BirdMetadata_alias bm True True)) bouts
            else Inr bouts) (\<lambda>bouts'.
     rbind (define_phrases bouts' pa) (\<lambda>phrases.
       py_sorted (\<lambda>p. rbind (item_first p) Bout_start) phrases)))"
  by (simp add: full_parse_def assembled_bouts_def Let_def rbind_assoc)

lemma chop_Inl:
  "Suc k < length xs \<Longrightarrow> \<exists>e. c (xs ! k) (xs ! Suc k) = Inl e \<Longrightarrow> \<exists>e. chop c xs = Inl e"
proof (induction c xs arbitrary: k rule: chop.induct)
  case (3 c x y zs)
  show ?case
  proof (cases k)
    case 0
    with "3.prems" show ?thesis by auto
  next
    case (Suc j)
    with "3.prems" "3.IH"[of j] obtain e where "chop c (y # zs) = Inl e" by auto
    then show ?thesis by (cases "c x y") simp_all
  qed
qed simp_all

lemma Bout_stop_introless:
  "intro_notes b = [] \<Longrightarrow> motifs b = None \<Longrightarrow> Bout_stop b = Inl IndexError"
  by (simp add: Bout_stop_def Bout_last_def truthy_def item_last_def)

lemma phrase_cut_introless:
  assumes "intro_notes p = []" "motifs p = None"
  shows "\<exists>e. phrase_cut t p q = Inl e"
  using Bout_stop_introless[OF assms]
  by (cases "Bout_start q") (simp_all add: phrase_cut_def delta_t_bouts_def)

lemma define_phrases_introless:
  assumes "Suc k < length bouts" "intro_notes (bouts ! k) = []" "motifs (bouts ! k) = None"
  shows "\<exists>err. define_phrases bouts t = Inl err"
  unfolding define_phrases_chop
  using chop_Inl[OF assms(1), of "phrase_cut t"] phrase_cut_introless[OF assms(2,3)]
  by blast

lemma py_sorted_set: "py_sorted f xs = Inr ys \<Longrightarrow> set ys = set xs"
  using py_sorted_mset mset_eq_setD by blast

lemma bouts_loop_motifs:
  "bouts_loop t igs sg_left bouts = Inr (sg', bouts') \<Longrightarrow> \<forall>b \<in> set bouts. motifs b = None \<Longrightarrow>
   \<forall>b \<in> set bouts'. motifs b = None"
proof (induction igs arbitrary: sg_left bouts)
  case Nil
  then show ?case by simp
next
  case (Cons ig rest)
  from Cons.prems(1) obtain near_idx near_sg d where
    step: "(if d \<le> t then
         rbind (Bout_init (voc_list ig) ig near_sg) (\<lambda>b.
           bouts_loop t rest (take near_idx sg_left @ drop (Suc near_idx) sg_left) (bouts @ [b]))
       else
         rbind (VocGroup_init (voc_list ig) []) (\<lambda>eg.
         rbind (Bout_init (voc_list ig) ig eg) (\<lambda>b.
           bouts_loop t rest sg_left (bouts @ [b])))) = Inr (sg', bouts')"
    by (auto simp: rbind_eq_Inr)
  then obtain b sg g where b: "Bout_init (voc_list ig) ig g = Inr b"
    and r: "bouts_loop t rest sg (bouts @ [b]) = Inr (sg', bouts')"
    by (auto simp: rbind_eq_Inr split: if_splits)
  from Bout_init_fields[OF b] Cons.prems(2) have "\<forall>x \<in> set (bouts @ [b]). motifs x = None"
    by simp
  from Cons.IH[OF r this] show ?case .
qed

lemma leftover_bouts_motifs:
  "rmap (\<lambda>g. rbind (VocGroup_init (voc_list g) []) (\<lambda>eg. Bout_init (voc_list g) eg g)) sgs = Inr extra
   \<Longrightarrow> \<forall>b \<in> set extra. motifs b = None"
proof (induction sgs arbitrary: extra)
  case Nil
  then show ?case by simp
next
  case (Cons g sgs)
  from Cons.prems obtain eg b rest where b: "Bout_init (voc_list g) eg g = Inr b"
    and rest: "rmap (\<lambda>g. rbind (VocGroup_init (voc_list g) []) (\<lambda>eg. Bout_init (voc_list g) eg g)) sgs
        = Inr rest"
    and extra: "extra = b # rest"
    by (auto simp: rbind_eq_Inr)
  from Cons.IH[OF rest] Bout_init_fields[OF b] extra show ?case by simp
qed

lemma define_bouts_motifs:
  assumes "define_bouts igs sgs t = Inr bouts"
  shows "\<forall>b \<in> set bouts. motifs b = None"
proof -
  from assms obtain sg' bs extra where
    l: "bouts_loop t igs sgs [] = Inr (sg', bs)"
    and m: "rmap (\<lambda>g. rbind (VocGroup_init (voc_list g) []) (\<lambda>eg. Bout_init (voc_list g) eg g)) sg'
        = Inr extra"
    and s: "py_sorted Bout_start (bs @ extra) = Inr bouts"
    by (auto simp: define_bouts_def rbind_eq_Inr)
  from bouts_loop_motifs[OF l] leftover_bouts_motifs[OF m] py_sorted_set[OF s]
  show ?thesis by auto
qed

lemma assembled_bouts_motifs:
  "assembled_bouts vl bm ia sa isp ssp ba = Inr bouts \<Longrightarrow> \<forall>b \<in> set bouts. motifs b = None"
  by (auto simp: assembled_bouts_def Let_def rbind_eq_Inr dest: define_bouts_motifs)

text \<open>
  The bout list assembled from a timeline of one syllable holds one intro-less bout with
  motifs \<open>None\<close>; \<open>define_phrases\<close> and \<open>full_parse\<close> without motif parsing return
  the one phrase, since the stop of the last bout is never read.
\<close>

theorem introless_bout_counterexample:
  "define_bouts [] [one_event_group] (1/2) = Inr [song_only_bout] \<and>
   intro_notes song_only_bout = [] \<and> motifs song_only_bout = None \<and>
   define_phrases [song_only_bout] 2 = Inr [[song_only_bout]] \<and>
   full_parse one_event example_bird (1/2) (1/2) (4/5) (4/5) (1/2) False 2 =
     Inr [[song_only_bout]]"
  by (simp add: full_parse_def group_elements_def BirdMetadata_alias_def example_bird_def
        anneal_groups_def split_groups_def enumerate_eq_zip extend_last_def
        define_bouts_def define_phrases_def py_sorted_def Bout_start_def Bout_first_def
        item_first_def VocGroup_init_def getitem_def Bout_init_def py_min_def py_max_def
        VocGroup_start_def VocGroup_first_def one_event_def one_event_group_def
        song_only_bout_def)

text \<open>
  C2 (amended). A bout with no intro notes whose motifs are still \<open>None\<close> raises
  \<open>IndexError\<close> on \<open>last\<close>, \<open>stop\<close> and \<open>duration\<close>. So \<open>define_phrases\<close> raises whenever
  such a bout stands in its bout list before the last position, and \<open>full_parse\<close> with
  \<open>parse_motifs=False\<close> raises whenever the assembled bout list has an intro-less bout
  before its last position.
\<close>

theorem introless_unparsed_bout_raises:
  "(intro_notes b = [] \<and> motifs b = None \<longrightarrow>
      Bout_last b = Inl IndexError \<and> Bout_stop b = Inl IndexError \<and>
      Bout_duration b = Inl IndexError) \<and>
   (Suc k < length bouts \<and> intro_notes (bouts ! k) = [] \<and> motifs (bouts ! k) = None \<longrightarrow>
      (\<exists>err. define_phrases bouts t = Inl err)) \<and>
   (assembled_bouts vl bm ia sa isp ssp ba = Inr bouts \<and> Suc k < length bouts \<and>
    intro_notes (bouts ! k) = [] \<longrightarrow>
      (\<exists>err. full_parse vl bm ia sa isp ssp ba False pa = Inl err))"
proof (intro conjI impI)
  assume a: "intro_notes b = [] \<and> motifs b = None"
  then show "Bout_last b = Inl IndexError"
    by (simp add: Bout_last_def truthy_def item_last_def)
  from a show "Bout_stop b = Inl IndexError"
    by (simp add: Bout_stop_introless)
  from a show "Bout_duration b = Inl IndexError"
    by (simp add: Bout_duration_def Bout_stop_introless)
next
  assume "Suc k < length bouts \<and> intro_notes (bouts ! k) = [] \<and> motifs (bouts ! k) = None"
  then show "\<exists>err. define_phrases bouts t = Inl err"
    using define_phrases_introless by blast
next
  assume a: "assembled_bouts vl bm ia sa isp ssp ba = Inr bouts \<and> Suc k < length bouts \<and>
    intro_notes (bouts ! k) = []"
  then have "motifs (bouts ! k) = None"
    using assembled_bouts_motifs[of vl bm ia sa isp ssp ba bouts] by simp
  with a obtain err where "define_phrases bouts pa = Inl err"
    using define_phrases_introless by blast
  with a show "\<exists>err. full_parse vl bm ia sa isp ssp ba False pa = Inl err"
    by (simp add: full_parse_assembled)
qed

theorem introless_unparsed_bout_raises_witness:
  "intro_notes song_only_bout = [] \<and> motifs song_only_bout = None \<and>
   Bout_last song_only_bout = Inl IndexError \<and> Bout_stop song_only_bout = Inl IndexError \<and>
   Bout_duration song_only_bout = Inl IndexError \<and>
   (\<exists>err. define_phrases [song_only_bout, intro_only_bout 1000000 1100000] 2 = Inl err) \<and>
   (\<exists>bouts. assembled_bouts aia_timeline example_bird (1/2) (1/2) (4/5) (4/5) (1/2) = Inr bouts \<and>
      Suc 0 < length bouts \<and> intro_notes (bouts ! 0) = []) \<and>
   (\<exists>err. full_parse aia_timeline example_bird (1/2) (1/2) (4/5) (4/5) (1/2) False 2 = Inl err)"
proof -
  have b: "intro_notes song_only_bout = [] \<and> motifs song_only_bout = None"
    by (simp add: song_only_bout_def)
  from introless_unparsed_bout_raises[of song_only_bout] b
  have c1: "Bout_last song_only_bout = Inl IndexError \<and> Bout_stop song_only_bout = Inl IndexError \<and>
      Bout_duration song_only_bout = Inl IndexError"
    by blast
  let ?bs = "[song_only_bout, intro_only_bout 1000000 1100000]"
  have "Suc 0 < length ?bs \<and> intro_notes (?bs ! 0) = [] \<and> motifs (?bs ! 0) = None"
    by (simp add: song_only_bout_def)
  with introless_unparsed_bout_raises[of _ 0 ?bs 2]
  have c2: "\<exists>err. define_phrases ?bs 2 = Inl err"
    by blast
  have a: "\<exists>bouts. assembled_bouts aia_timeline example_bird (1/2) (1/2) (4/5) (4/5) (1/2) = Inr bouts \<and>
      Suc 0 < length bouts \<and> intro_notes (bouts ! 0) = []"
    by (simp add: assembled_bouts_def group_elements_def BirdMetadata_alias_def example_bird_def
        anneal_groups_def split_groups_def enumerate_eq_zip extend_last_def
        anneal_cut_def split_cut_def delta_t_def
        define_bouts_def py_sorted_def Bout_start_def Bout_first_def
        candidates_def py_min_key_def delta_t_groups_def VocGroup_stop_def VocGroup_last_def
        item_last_def total_seconds_def
        item_first_def VocGroup_init_def getitem_def Bout_init_def py_min_def py_max_def
        VocGroup_start_def VocGroup_first_def aia_timeline_def)
  then obtain bouts where
    "assembled_bouts aia_timeline example_bird (1/2) (1/2) (4/5) (4/5) (1/2) = Inr bouts \<and>
      Suc 0 < length bouts \<and> intro_notes (bouts ! 0) = []" by blast
  with introless_unparsed_bout_raises[of _ 0 bouts _ aia_timeline example_bird "1/2" "1/2" "4/5" "4/5" "1/2" 2]
  have c3: "\<exists>err. full_parse aia_timeline example_bird (1/2) (1/2) (4/5) (4/5) (1/2) False 2 = Inl err"
    by blast
  from b c1 c2 a c3 show ?thesis by blast
qed

text \<open>
  C1. On the bout that \<open>Bout_init\<close> builds from the intro group [0] and the syllable
  group [1] of the three-event timeline, \<open>stop\<close> before \<open>parse_motifs\<close> is the stop of the
  intro note (0.1 s) although the syllable group is not empty and its last event stops at
  0.7 s; the duration is 0.1 s accordingly. After \<open>parse_motifs\<close>, \<open>stop\<close> is 0.7 s.
\<close>

theorem Bout_stop_ignores_unparsed_syllables:
  "Bout_init gaps_timeline (gaps_group [0]) (gaps_group [1]) = Inr (gaps_bout [0] [1]) \<and>
   syllables (gaps_bout [0] [1]) = [\<lparr>start = 600000, stop = 700000, name = ''a''\<rparr>] \<and>
   Bout_stop (gaps_bout [0] [1]) = Inr 100000 \<and>
   Bout_duration (gaps_bout [0] [1]) = Inr (1/10) \<and>
   map_sum id Bout_stop (parse_motifs (gaps_bout [0] [1]) [''a''] id) = Inr (Inr 700000)"
  by (simp add: Bout_init_def py_min_def py_max_def gaps_group_def gaps_bout_def
        gaps_timeline_def Bout_stop_def Bout_last_def truthy_def item_last_def
        Bout_duration_def Bout_start_def Bout_first_def item_first_def total_seconds_def
        parse_motifs_def define_motifs_def VocGroup_init_def getitem_def)

section \<open>Phrases of unparsed bouts\<close>

text \<open>
  C9. On the timeline i (0 to 0.1 s), a (0.2 to 2.5 s), i (2.6 to 2.7 s), a (2.8 to 2.9 s)
  \<open>define_bouts\<close> builds the two bouts ([0],[1]) and ([2],[3]), sorted by start. The last
  event of the first bout stops at 2.5 s and the second bout starts at 2.6 s, a silence of
  0.1 s, below the threshold of 2 s; yet \<open>define_phrases\<close> on the unparsed bouts computes
  2.5 s from the stop of the intro note and puts the two bouts into two phrases, and so
  does \<open>full_parse\<close> without motif parsing. With motif parsing \<open>full_parse\<close> returns one
  phrase of two bouts.
\<close>

theorem define_phrases_separates_close_bouts:
  "define_bouts [iaia_group [0], iaia_group [2]] [iaia_group [1], iaia_group [3]] (1/2) =
     Inr [iaia_bout [0] [1], iaia_bout [2] [3]] \<and>
   syllables (iaia_bout [0] [1]) = [\<lparr>start = 200000, stop = 2500000, name = ''a''\<rparr>] \<and>
   Bout_start (iaia_bout [2] [3]) = Inr 2600000 \<and>
   total_seconds (2600000 - 2500000) \<le> 2 \<and>
   delta_t_bouts (iaia_bout [0] [1]) (iaia_bout [2] [3]) = Inr (5/2) \<and>
   define_phrases [iaia_bout [0] [1], iaia_bout [2] [3]] 2 =
     Inr [[iaia_bout [0] [1]], [iaia_bout [2] [3]]] \<and>
   full_parse iaia_timeline example_bird (1/2) (1/2) (4/5) (4/5) (1/2) False 2 =
     Inr [[iaia_bout [0] [1]], [iaia_bout [2] [3]]] \<and>
   map_sum id (map length)
     (full_parse iaia_timeline example_bird (1/2) (1/2) (4/5) (4/5) (1/2) True 2) = Inr [2]"
proof (intro conjI)
  show "define_bouts [iaia_group [0], iaia_group [2]] [iaia_group [1], iaia_group [3]] (1/2) =
     Inr [iaia_bout [0] [1], iaia_bout [2] [3]]"
    by (simp add: full_parse_def group_elements_def BirdMetadata_alias_def example_bird_def
        anneal_groups_def split_groups_def enumerate_eq_zip extend_last_def
        anneal_cut_def split_cut_def delta_t_def define_bouts_def py_sorted_def
        Bout_start_def Bout_first_def candidates_def py_min_key_def delta_t_groups_def
        VocGroup_stop_def VocGroup_last_def item_last_def total_seconds_def item_first_def
        VocGroup_init_def getitem_def Bout_init_def py_min_def py_max_def VocGroup_start_def
        VocGroup_first_def define_phrases_def phrase_cut_def delta_t_bouts_def Bout_stop_def
        Bout_last_def truthy_def parse_motifs_def define_motifs_def motif_cut_def py_index_def
        iaia_timeline_def iaia_group_def iaia_bout_def)
  show "syllables (iaia_bout [0] [1]) = [\<lparr>start = 200000, stop = 2500000, name = ''a''\<rparr>]"
    by (simp add: iaia_bout_def iaia_timeline_def)
  show "Bout_start (iaia_bout [2] [3]) = Inr 2600000"
    by (simp add: Bout_start_def Bout_first_def item_first_def iaia_bout_def iaia_timeline_def)
  show "total_seconds (2600000 - 2500000) \<le> 2"
    by (simp add: total_seconds_def)
  show "delta_t_bouts (iaia_bout [0] [1]) (iaia_bout [2] [3]) = Inr (5/2)"
    by (simp add: full_parse_def group_elements_def BirdMetadata_alias_def example_bird_def
        anneal_groups_def split_groups_def enumerate_eq_zip extend_last_def
        anneal_cut_def split_cut_def delta_t_def define_bouts_def py_sorted_def
        Bout_start_def Bout_first_def candidates_def py_min_key_def delta_t_groups_def
        VocGroup_stop_def VocGroup_last_def item_last_def total_seconds_def item_first_def
        VocGroup_init_def getitem_def Bout_init_def py_min_def py_max_def VocGroup_start_def
        VocGroup_first_def define_phrases_def phrase_cut_def delta_t_bouts_def Bout_stop_def
        Bout_last_def truthy_def parse_motifs_def define_motifs_def motif_cut_def py_index_def
        iaia_timeline_def iaia_group_def iaia_bout_def)
  show "define_phrases [iaia_bout [0] [1], iaia_bout [2] [3]] 2 =
     Inr [[iaia_bout [0] [1]], [iaia_bout [2] [3]]]"
    by (simp add: full_parse_def group_elements_def BirdMetadata_alias_def example_bird_def
        anneal_groups_def split_groups_def enumerate_eq_zip extend_last_def
        anneal_cut_def split_cut_def delta_t_def define_bouts_def py_sorted_def
        Bout_start_def Bout_first_def candidates_def py_min_key_def delta_t_groups_def
        VocGroup_stop_def VocGroup_last_def item_last_def total_seconds_def item_first_def
        VocGroup_init_def getitem_def Bout_init_def py_min_def py_max_def VocGroup_start_def
        VocGroup_first_def define_phrases_def phrase_cut_def delta_t_bouts_def Bout_stop_def
        Bout_last_def truthy_def parse_motifs_def define_motifs_def motif_cut_def py_index_def
        iaia_timeline_def iaia_group_def iaia_bout_def)
  show "full_parse iaia_timeline example_bird (1/2) (1/2) (4/5) (4/5) (1/2) False 2 =
     Inr [[iaia_bout [0] [1]], [iaia_bout [2] [3]]]"
    by (simp add: full_parse_def group_elements_def BirdMetadata_alias_def example_bird_def
        anneal_groups_def split_groups_def enumerate_eq_zip extend_last_def
        anneal_cut_def split_cut_def delta_t_def define_bouts_def py_sorted_def
        Bout_start_def Bout_first_def candidates_def py_min_key_def delta_t_groups_def
        VocGroup_stop_def VocGroup_last_def item_last_def total_seconds_def item_first_def
        VocGroup_init_def getitem_def Bout_init_def py_min_def py_max_def VocGroup_start_def
        VocGroup_first_def define_phrases_def phrase_cut_def delta_t_bouts_def Bout_stop_def
        Bout_last_def truthy_def parse_motifs_def define_motifs_def motif_cut_def py_index_def
        iaia_timeline_def iaia_group_def iaia_bout_def)
  show "map_sum id (map length)
     (full_parse iaia_timeline example_bird (1/2) (1/2) (4/5) (4/5) (1/2) True 2) = Inr [2]"
    by (simp add: full_parse_def group_elements_def BirdMetadata_alias_def example_bird_def
        anneal_groups_def split_groups_def enumerate_eq_zip extend_last_def
        anneal_cut_def split_cut_def delta_t_def define_bouts_def py_sorted_def
        Bout_start_def Bout_first_def candidates_def py_min_key_def delta_t_groups_def
        VocGroup_stop_def VocGroup_last_def item_last_def total_seconds_def item_first_def
        VocGroup_init_def getitem_def Bout_init_def py_min_def py_max_def VocGroup_start_def
        VocGroup_first_def define_phrases_def phrase_cut_def delta_t_bouts_def Bout_stop_def
        Bout_last_def truthy_def parse_motifs_def define_motifs_def motif_cut_def py_index_def
        iaia_timeline_def iaia_group_def iaia_bout_def)
qed

end
